theory Spec2Isabelle
  imports Complex_Main "HOL-Library.Multiset" "HOL-Library.AList"
begin

section \<open>Data model\<close>

text \<open>
  A row of the N x 6 array \<open>[x, y, z, true_label, predicted_label, scanline_id]\<close>.
  Coordinates are exact reals; the two label columns and the scanline column hold
  integral values, so they are integers here. A cloud is the list of its rows; the
  in-place writes of the source are explicit state passing.
\<close>

record point =
  x :: real
  y :: real
  z :: real
  true_label :: int
  predicted_label :: int
  scanline_id :: int

type_synonym cloud = "point list"

datatype error =
    ValueError
  | IndexError
  | KeyError
  | UnboundLocalError
  | LinAlgError
  | NonTermination

section \<open>find\_runs\<close>

text \<open>\<open>np.linalg.norm(p[:3] - q[:3])\<close>.\<close>

definition norm3 :: "point \<Rightarrow> point \<Rightarrow> real" where
  "norm3 p q = sqrt ((x p - x q)\<^sup>2 + (y p - y q)\<^sup>2 + (z p - z q)\<^sup>2)"

text \<open>\<open>scanline_points[current_run_indices]\<close>: the rows at the given indices, copied.\<close>

definition rows_at :: "point list \<Rightarrow> nat list \<Rightarrow> point list" where
  "rows_at pts idxs = map (\<lambda>i. pts ! i) idxs"

text \<open>
  One iteration of the forward loop of \<open>find_runs\<close>, on the state
  \<open>(runs, current_run_indices)\<close>.
\<close>

definition forward_step ::
  "point list \<Rightarrow> real \<Rightarrow> point list list \<times> nat list \<Rightarrow> nat \<Rightarrow> point list list \<times> nat list" where
  "forward_step pts thr st i =
     (case st of (runs, cur) \<Rightarrow>
        if norm3 (pts ! i) (pts ! (i - 1)) < thr
        then (runs, cur @ [i])
        else (runs @ [rows_at pts cur], [i]))"

text \<open>
  The forward splitting pass: the loop over \<open>range(1, num_points)\<close> followed by the
  append of the last run. The source indexes row 0 here, which raises on an empty scanline.
\<close>

definition forward_pass :: "point list \<Rightarrow> real \<Rightarrow> error + point list list" where
  "forward_pass pts thr =
     (if pts = [] then Inl IndexError
      else case foldl (forward_step pts thr) ([], [0]) [1..<length pts] of
             (runs, cur) \<Rightarrow> Inr (runs @ [rows_at pts cur]))"

text \<open>The circular test and the merge \<open>runs[0] = vstack((runs[-1], runs[0])); runs.pop()\<close>.\<close>

definition circular_merge :: "point list \<Rightarrow> real \<Rightarrow> point list list \<Rightarrow> point list list" where
  "circular_merge pts thr runs =
     (if norm3 (pts ! 0) (last pts) < thr \<and> length runs > 1
      then butlast (runs[0 := last runs @ runs ! 0])
      else runs)"

definition find_runs :: "point list \<Rightarrow> real \<Rightarrow> error + point list list" where
  "find_runs pts thr =
     (case forward_pass pts thr of
        Inl e \<Rightarrow> Inl e
      | Inr runs \<Rightarrow> Inr (circular_merge pts thr runs))"


section \<open>Ground plane fitting\<close>

text \<open>
  \<open>xs[mask]\<close> for a boolean mask: the entries of \<open>xs\<close> at which the mask holds,
  in order.
\<close>

definition mask_select :: "bool list \<Rightarrow> 'a list \<Rightarrow> 'a list" where
  "mask_select bs xs = map snd (filter fst (zip bs xs))"

text \<open>
  \<open>np.argsort(point_cloud[:, 2])\<close>: the row indices ordered by height. Rows of equal
  height are kept in index order here; numpy leaves their order open.
\<close>

definition argsort_z :: "cloud \<Rightarrow> nat list" where
  "argsort_z pc = sort_key (\<lambda>i. z (pc ! i)) [0..<length pc]"

text \<open>The slice \<open>xs[:k]\<close>: a negative bound counts from the end.\<close>

definition slice_to :: "int \<Rightarrow> 'a list \<Rightarrow> 'a list" where
  "slice_to k xs = (if k < 0 then take (length xs - nat (- k)) xs else take (nat k) xs)"

text \<open>\<open>np.mean\<close>: the mean of an empty array is nan, here \<open>None\<close>.\<close>

definition mean :: "real list \<Rightarrow> real option" where
  "mean xs = (if xs = [] then None else Some (sum_list xs / real (length xs)))"

text \<open>
  \<open>extract_initial_seed_indices\<close>. A comparison with nan is false, so a nan
  reference height selects nothing. The source writes to no array.
\<close>

definition extract_initial_seed_indices :: "cloud \<Rightarrow> int \<Rightarrow> real \<Rightarrow> nat list" where
  "extract_initial_seed_indices pc num_points height_threshold =
     (let sorted_indices = argsort_z pc;
          sorted_points = rows_at pc sorted_indices;
          lpr_height = mean (map z (slice_to num_points sorted_points));
          seed_mask = map (\<lambda>p. case lpr_height of None \<Rightarrow> False
                                   | Some lpr \<Rightarrow> z p < lpr + height_threshold) sorted_points
      in mask_select seed_mask sorted_indices)"

type_synonym vec3 = "real \<times> real \<times> real"
type_synonym plane = "vec3 \<times> real"

definition xyz :: "point \<Rightarrow> vec3" where
  "xyz p = (x p, y p, z p)"

definition dot3 :: "vec3 \<Rightarrow> vec3 \<Rightarrow> real" where
  "dot3 u v = (case u of (a, b, c) \<Rightarrow> case v of (a', b', c') \<Rightarrow> a * a' + b * b' + c * c')"

definition vnorm :: "vec3 \<Rightarrow> real" where
  "vnorm v = sqrt (dot3 v v)"

text \<open>
  Step 3 of the loop body for one row:
  \<open>np.abs(np.dot(xyz, normal) + d) / np.linalg.norm(normal)\<close>.
\<close>

definition plane_distance :: "plane \<Rightarrow> point \<Rightarrow> real" where
  "plane_distance pl p =
     (case pl of (normal, d) \<Rightarrow> \<bar>dot3 (xyz p) normal + d\<bar> / vnorm normal)"

text \<open>
  Step 4 for one row: \<open>distances < distance_threshold\<close>. With a zero normal numpy
  divides by zero, gets nan or inf, and the comparison is false.
\<close>

definition is_ground :: "plane \<Rightarrow> real \<Rightarrow> point \<Rightarrow> bool" where
  "is_ground pl distance_threshold p =
     (vnorm (fst pl) \<noteq> 0 \<and> plane_distance pl p < distance_threshold)"

text \<open>\<open>np.where(is_ground)[0]\<close> over all rows.\<close>

definition ground_indices :: "plane \<Rightarrow> real \<Rightarrow> cloud \<Rightarrow> nat list" where
  "ground_indices pl distance_threshold pc =
     mask_select (map (is_ground pl distance_threshold) pc) [0..<length pc]"

text \<open>
  The loop of \<open>refine_ground_plane\<close> on the state \<open>(seed_indices, (normal, d))\<close>; the
  plane is unbound (\<open>None\<close>) before the first iteration. \<open>estimate_ground_plane\<close> rests
  on numpy's SVD and is a parameter \<open>est\<close> from the seed coordinates to a plane;
  \<open>None\<close> stands for the SVD raising.
\<close>

primrec gpf_loop ::
  "(vec3 list \<Rightarrow> plane option) \<Rightarrow> cloud \<Rightarrow> real \<Rightarrow> nat \<Rightarrow> nat list \<times> plane option
     \<Rightarrow> error + nat list \<times> plane option" where
  "gpf_loop est pc distance_threshold 0 st = Inr st"
| "gpf_loop est pc distance_threshold (Suc n) st =
     (case est (map xyz (rows_at pc (fst st))) of
        None \<Rightarrow> Inl LinAlgError
      | Some pl \<Rightarrow>
          gpf_loop est pc distance_threshold n (ground_indices pl distance_threshold pc, Some pl))"

text \<open>\<open>point_cloud[idxs, 4] = v\<close>.\<close>

definition set_labels :: "cloud \<Rightarrow> nat list \<Rightarrow> int \<Rightarrow> cloud" where
  "set_labels pc idxs v = foldl (\<lambda>c i. c[i := (c ! i)\<lparr>predicted_label := v\<rparr>]) pc idxs"

text \<open>
  \<open>refine_ground_plane\<close>: the returned plane or the exception, paired with the state of
  the caller's array afterwards. With no iteration the labels are written and the
  \<open>return\<close> then reads the unbound \<open>normal\<close>.
\<close>

definition refine_ground_plane ::
  "(vec3 list \<Rightarrow> plane option) \<Rightarrow> cloud \<Rightarrow> int \<Rightarrow> real \<Rightarrow> real \<Rightarrow> int
     \<Rightarrow> (error + plane) \<times> cloud" where
  "refine_ground_plane est pc num_points height_threshold distance_threshold num_iterations =
     (let seed_indices = extract_initial_seed_indices pc num_points height_threshold
      in case gpf_loop est pc distance_threshold (nat num_iterations) (seed_indices, None) of
           Inl e \<Rightarrow> (Inl e, pc)
         | Inr (seeds, last_plane) \<Rightarrow>
             (let pc' = set_labels pc seeds 9
              in case last_plane of
                   None \<Rightarrow> (Inl UnboundLocalError, pc')
                 | Some pl \<Rightarrow> (Inr pl, pc')))"

section \<open>Scanline grouping\<close>

text \<open>\<open>group_by_scanline\<close>: one group per distinct scanline id, ascending.\<close>

definition group_by_scanline :: "cloud \<Rightarrow> cloud list" where
  "group_by_scanline pc =
     (let scan_ids = map scanline_id pc;
          unique_ids = remdups (sort scan_ids)
      in map (\<lambda>s_id. mask_select (map (\<lambda>s. s = s_id) scan_ids) pc) unique_ids)"

section \<open>Label equivalences\<close>

text \<open>
  The dictionary \<open>label_equivalences\<close> as an association list in insertion order:
  \<open>map_of\<close> reads a key, \<open>AList.update\<close> overwrites an entry in place or appends a
  new one, as a Python dict does.
\<close>

type_synonym label_map = "(int \<times> int) list"

definition keys :: "label_map \<Rightarrow> int set" where
  "keys m = fst ` set m"

definition vals :: "label_map \<Rightarrow> int set" where
  "vals m = snd ` set m"

text \<open>
  \<open>resolve_label\<close>: the \<open>while\<close> loop may raise \<open>KeyError\<close> or never end;
  not returning is \<open>None\<close>.
\<close>

partial_function (option) resolve_label :: "label_map \<Rightarrow> int \<Rightarrow> (error + int) option" where
  "resolve_label m label =
     (case map_of m label of
        None \<Rightarrow> Some (Inl KeyError)
      | Some v \<Rightarrow> if label \<noteq> v then resolve_label m v else Some (Inr label))"

text \<open>The \<open>while\<close> loop of \<open>assign_new_label\<close>.\<close>

function skip_used :: "label_map \<Rightarrow> int \<Rightarrow> int" where
  "skip_used m c = (if c = 9 \<or> c \<in> keys m then skip_used m (c + 1) else c)"
  by pat_completeness auto
termination
proof (relation "measure (\<lambda>(m, c). nat (Max (insert 9 (keys m)) + 1 - c))")
  show "wf (measure (\<lambda>(m, c). nat (Max (insert 9 (keys m)) + 1 - c)))"
    by simp
next
  fix m :: label_map and c :: int
  assume "c = 9 \<or> c \<in> keys m"
  then have "c \<in> insert 9 (keys m)" by auto
  moreover have "finite (insert 9 (keys m))" by (simp add: keys_def)
  ultimately have "c \<le> Max (insert 9 (keys m))" by (rule Max_ge [rotated])
  then show "((m, c + 1), (m, c)) \<in> measure (\<lambda>(m, c). nat (Max (insert 9 (keys m)) + 1 - c))"
    by simp
qed

declare skip_used.simps [simp del]

text \<open>\<open>run[:, 4] = label\<close>.\<close>

definition set_run_label :: "point list \<Rightarrow> int \<Rightarrow> point list" where
  "set_run_label run label = map (\<lambda>p. p\<lparr>predicted_label := label\<rparr>) run"

text \<open>\<open>assign_new_label\<close>: the run, the dictionary and the returned counter.\<close>

definition assign_new_label ::
  "point list \<Rightarrow> label_map \<Rightarrow> int \<Rightarrow> point list \<times> label_map \<times> int" where
  "assign_new_label run m global_label_counter =
     (let c = skip_used m global_label_counter
      in (set_run_label run c, AList.update c c m, c + 1))"

text \<open>
  \<open>inherit_and_unify_labels\<close>. The set \<open>neighbor_labels\<close> is a duplicate-free list; the
  order in which Python visits a set is open, and the writes of the loop all store the
  same value. \<open>min\<close> of an empty set raises.
\<close>

definition inherit_and_unify_labels ::
  "point list \<Rightarrow> int list \<Rightarrow> label_map \<Rightarrow> error + point list \<times> label_map" where
  "inherit_and_unify_labels run neighbor_labels m =
     (if neighbor_labels = [] then Inl ValueError
      else let min_label = Min (set neighbor_labels)
           in Inr (set_run_label run min_label,
                   foldl (\<lambda>m' lbl. AList.update lbl min_label m') m neighbor_labels))"

section \<open>Label propagation\<close>

text \<open>
  Modelled from the spec: the nearest-neighbour query of the spatial index
  (\<open>sklearn.neighbors.KDTree\<close>, which is not part of the source):
  \<open>query(index, point, k=1)\<close> gives the distance to the nearest indexed row and that
  row's index. Among equally near rows the first is taken. The index is not empty.
\<close>

definition nearest :: "point list \<Rightarrow> point \<Rightarrow> real \<times> nat" where
  "nearest pts q =
     foldl (\<lambda>best j. if norm3 q (pts ! j) < fst best then (norm3 q (pts ! j), j) else best)
       (norm3 q (pts ! 0), 0) [1..<length pts]"

text \<open>
  \<open>indices[close_mask, 0]\<close> for one run: the nearest rows of the run's points that lie
  within \<open>merge_threshold\<close>.
\<close>

definition close_indices :: "point list \<Rightarrow> real \<Rightarrow> point list \<Rightarrow> nat list" where
  "close_indices points_above merge_threshold run =
     (let found = map (nearest points_above) run
      in mask_select (map (\<lambda>r. fst r < merge_threshold) found) (map snd found))"

text \<open>The loop \<open>for idx in close_indices\<close> that fills \<open>neighbor_labels\<close>.\<close>

fun collect_labels :: "label_map \<Rightarrow> point list \<Rightarrow> nat list \<Rightarrow> int list \<Rightarrow> error + int list" where
  "collect_labels m points_above [] neighbor_labels = Inr neighbor_labels"
| "collect_labels m points_above (idx # idxs) neighbor_labels =
     (if length points_above \<le> idx then Inl IndexError
      else case resolve_label m (predicted_label (points_above ! idx)) of
             None \<Rightarrow> Inl NonTermination
           | Some (Inl e) \<Rightarrow> Inl e
           | Some (Inr resolved_label) \<Rightarrow>
               collect_labels m points_above idxs (List.insert resolved_label neighbor_labels))"

text \<open>
  The loop \<open>for run in runs_current\<close> of \<open>update_labels\<close>, on the runs, the dictionary
  and \<open>global_label_counter\<close>.
\<close>

fun label_runs ::
  "point list \<Rightarrow> real \<Rightarrow> point list list \<Rightarrow> label_map \<Rightarrow> int
     \<Rightarrow> error + point list list \<times> label_map" where
  "label_runs points_above merge_threshold [] m counter = Inr ([], m)"
| "label_runs points_above merge_threshold (run # runs) m counter =
     (case collect_labels m points_above (close_indices points_above merge_threshold run) [] of
        Inl e \<Rightarrow> Inl e
      | Inr neighbor_labels \<Rightarrow>
          if neighbor_labels = [] then
            (case assign_new_label run m counter of
               (run', m', counter') \<Rightarrow>
                 (case label_runs points_above merge_threshold runs m' counter' of
                    Inl e \<Rightarrow> Inl e
                  | Inr (runs', m'') \<Rightarrow> Inr (run' # runs', m'')))
          else
            (case inherit_and_unify_labels run neighbor_labels m of
               Inl e \<Rightarrow> Inl e
             | Inr (run', m') \<Rightarrow>
                 (case label_runs points_above merge_threshold runs m' counter of
                    Inl e \<Rightarrow> Inl e
                  | Inr (runs', m'') \<Rightarrow> Inr (run' # runs', m''))))"

text \<open>
  \<open>update_labels\<close>: the relabelled runs and the dictionary. \<open>max\<close> of no values,
  \<open>np.vstack\<close> of no arrays and an index over no rows raise.
\<close>

definition update_labels ::
  "point list list \<Rightarrow> point list list \<Rightarrow> label_map \<Rightarrow> real
     \<Rightarrow> error + point list list \<times> label_map" where
  "update_labels runs_current runs_above m merge_threshold =
     (if m = [] then Inl ValueError
      else if runs_above = [] then Inl ValueError
      else if concat runs_above = [] then Inl ValueError
      else label_runs (concat runs_above) merge_threshold runs_current m (Max (vals m) + 1))"

section \<open>Clustering\<close>

text \<open>The loop over the runs of the first scanline, on \<open>label_counter\<close> and the dictionary.\<close>

definition first_label :: "int \<Rightarrow> int" where
  "first_label label_counter =
     (let c = label_counter + 1 in if c = 9 then c + 1 else c)"

fun label_first ::
  "point list list \<Rightarrow> int \<Rightarrow> label_map \<Rightarrow> point list list \<times> int \<times> label_map" where
  "label_first [] label_counter m = ([], label_counter, m)"
| "label_first (run # runs) label_counter m =
     (let c = first_label label_counter
      in case label_first runs c (AList.update c c m) of
           (runs', c', m') \<Rightarrow> (set_run_label run c # runs', c', m'))"

text \<open>
  The loop over \<open>range(1, len(scanlines))\<close>: the remaining scanlines, \<open>runs_above\<close>
  and the dictionary; it gives the scanlines as rewritten and the dictionary.
  \<open>np.vstack\<close> of no runs raises.
\<close>

fun propagate ::
  "cloud list \<Rightarrow> point list list \<Rightarrow> label_map \<Rightarrow> real \<Rightarrow> real
     \<Rightarrow> error + cloud list \<times> label_map" where
  "propagate [] runs_above m distance_threshold merge_threshold = Inr ([], m)"
| "propagate (s # ss) runs_above m distance_threshold merge_threshold =
     (case find_runs s distance_threshold of
        Inl e \<Rightarrow> Inl e
      | Inr runs_current \<Rightarrow>
          (case update_labels runs_current runs_above m merge_threshold of
             Inl e \<Rightarrow> Inl e
           | Inr (runs_current', m') \<Rightarrow>
               if runs_current' = [] then Inl ValueError
               else
                 (case propagate ss runs_current' m' distance_threshold merge_threshold of
                    Inl e \<Rightarrow> Inl e
                  | Inr (ss', m'') \<Rightarrow> Inr (concat runs_current' # ss', m''))))"

text \<open>
  \<open>extract_clusters\<close>: every row's label is replaced by the dictionary's entry for it,
  one lookup per row.
\<close>

fun relabel :: "label_map \<Rightarrow> point list \<Rightarrow> error + point list" where
  "relabel m [] = Inr []"
| "relabel m (p # ps) =
     (case map_of m (predicted_label p) of
        None \<Rightarrow> Inl KeyError
      | Some v \<Rightarrow>
          (case relabel m ps of
             Inl e \<Rightarrow> Inl e
           | Inr ps' \<Rightarrow> Inr (p\<lparr>predicted_label := v\<rparr> # ps')))"

definition extract_clusters :: "cloud list \<Rightarrow> label_map \<Rightarrow> error + point list" where
  "extract_clusters scanlines m =
     (if scanlines = [] then Inl ValueError else relabel m (concat scanlines))"

text \<open>
  The body of \<open>scan_line_run_clustering\<close> between the filter and the write-back, on the
  copy \<open>non_ground_points\<close>: the clustered points and the final dictionary.
\<close>

definition cluster_non_ground ::
  "cloud \<Rightarrow> real \<Rightarrow> real \<Rightarrow> error + point list \<times> label_map" where
  "cluster_non_ground non_ground_points distance_threshold merge_threshold =
     (case group_by_scanline non_ground_points of
        [] \<Rightarrow> Inl IndexError
      | s0 # ss \<Rightarrow>
          (case find_runs s0 distance_threshold of
             Inl e \<Rightarrow> Inl e
           | Inr runs0 \<Rightarrow>
               (case label_first runs0 0 [] of
                  (runs_above, label_counter, m) \<Rightarrow>
                    if runs_above = [] then Inl ValueError
                    else
                      (case propagate ss runs_above m distance_threshold merge_threshold of
                         Inl e \<Rightarrow> Inl e
                       | Inr (ss', m') \<Rightarrow>
                           (case extract_clusters (concat runs_above # ss') m' of
                              Inl e \<Rightarrow> Inl e
                            | Inr clustered_points \<Rightarrow> Inr (clustered_points, m'))))))"

text \<open>\<open>point_cloud[idxs, 4] = labels\<close>, for as many labels as indices.\<close>

definition write_labels :: "cloud \<Rightarrow> nat list \<Rightarrow> int list \<Rightarrow> cloud" where
  "write_labels pc idxs labels =
     foldl (\<lambda>c (i, v). c[i := (c ! i)\<lparr>predicted_label := v\<rparr>]) pc (zip idxs labels)"

text \<open>
  \<open>scan_line_run_clustering\<close>: the exception raised, if any, paired with the state of
  the caller's array afterwards (the array the source returns). A write-back of a
  different number of labels than indices raises.
\<close>

definition scan_line_run_clustering :: "cloud \<Rightarrow> real \<Rightarrow> real \<Rightarrow> error option \<times> cloud" where
  "scan_line_run_clustering pc distance_threshold merge_threshold =
     (let non_ground_mask = map (\<lambda>p. predicted_label p = 0) pc
      in if length (filter id non_ground_mask) = 0 then (Some ValueError, pc)
         else
           (let non_ground_indices = mask_select non_ground_mask [0..<length pc];
                non_ground_points = mask_select non_ground_mask pc
            in if non_ground_points = [] then (Some ValueError, pc)
               else
                 (case cluster_non_ground non_ground_points distance_threshold merge_threshold of
                    Inl e \<Rightarrow> (Some e, pc)
                  | Inr (clustered_points, m) \<Rightarrow>
                      if length clustered_points \<noteq> length non_ground_indices
                      then (Some ValueError, pc)
                      else (None, write_labels pc non_ground_indices
                                    (map predicted_label clustered_points)))))"

section \<open>The claims' notions\<close>

text \<open>
  The reference height in the spec's words: the mean height of the \<open>k\<close> lowest points.
\<close>

definition lowest_point_representative :: "cloud \<Rightarrow> nat \<Rightarrow> real" where
  "lowest_point_representative pc k = sum_list (take k (sort (map z pc))) / real k"


text \<open>The columns other than \<open>predicted_label\<close>.\<close>

definition other_columns :: "point \<Rightarrow> real \<times> real \<times> real \<times> int \<times> int" where
  "other_columns p = (x p, y p, z p, true_label p, scanline_id p)"

text \<open>
  In the spec's words: \<open>l\<close> is the smallest unused positive integer that is not 9 and
  not already a key.
\<close>

definition smallest_unused :: "label_map \<Rightarrow> int \<Rightarrow> bool" where
  "smallest_unused m l =
     (0 < l \<and> l \<noteq> 9 \<and> l \<notin> keys m \<and> (\<forall>j. 0 < j \<and> j < l \<longrightarrow> j = 9 \<or> j \<in> keys m))"

section \<open>The states of the label equivalences during one call\<close>

text \<open>
  The dictionary together with the counter that is live at that point of
  \<open>scan_line_run_clustering\<close>: \<open>label_counter\<close> inside the loop over the first
  scanline, nothing between two calls of \<open>update_labels\<close>, and
  \<open>global_label_counter\<close> inside \<open>update_labels\<close>.
\<close>

datatype eq_state =
    Init int label_map
  | Idle label_map
  | Updating int label_map

fun mapping_of :: "eq_state \<Rightarrow> label_map" where
  "mapping_of (Init c m) = m"
| "mapping_of (Idle m) = m"
| "mapping_of (Updating c m) = m"

text \<open>
  One operation on the dictionary, as the source performs it: a run of the first scanline
  gets its label; the first scanline is done (it has at least one run); \<open>update_labels\<close>
  starts and sets its counter; \<open>assign_new_label\<close>; \<open>inherit_and_unify_labels\<close> on
  labels that \<open>resolve_label\<close> returned; \<open>update_labels\<close> ends.
\<close>

inductive step :: "eq_state \<Rightarrow> eq_state \<Rightarrow> bool" where
  first_run:
    "step (Init c m) (Init (first_label c) (AList.update (first_label c) (first_label c) m))"
| first_done:
    "m \<noteq> [] \<Longrightarrow> step (Init c m) (Idle m)"
| enter:
    "m \<noteq> [] \<Longrightarrow> step (Idle m) (Updating (Max (vals m) + 1) m)"
| new_label:
    "assign_new_label run m c = (run', m', c') \<Longrightarrow> step (Updating c m) (Updating c' m')"
| unify:
    "inherit_and_unify_labels run neighbor_labels m = Inr (run', m') \<Longrightarrow>
     set neighbor_labels \<subseteq> {r. \<exists>l. resolve_label m l = Some (Inr r)} \<Longrightarrow>
     step (Updating c m) (Updating c m')"
| leave:
    "step (Updating c m) (Idle m)"

text \<open>The states one call can be in: those the operations lead to from the empty dictionary.\<close>

definition reachable :: "eq_state \<Rightarrow> bool" where
  "reachable s = step\<^sup>*\<^sup>* (Init 0 []) s"

text \<open>
  What holds of the dictionary in every such state: each key is stored once, every value
  is a key and not above the key it is stored under, and the keys are the integers from 1
  up to some bound, 9 left out.
\<close>

definition inv_map :: "label_map \<Rightarrow> bool" where
  "inv_map m =
     (distinct (map fst m)
      \<and> (\<forall>a b. map_of m a = Some b \<longrightarrow> b \<in> keys m \<and> b \<le> a)
      \<and> (\<exists>k. keys m = {i. 1 \<le> i \<and> i \<le> k \<and> i \<noteq> 9}))"

text \<open>
  What holds of the counter as well: in the first loop it is the last label given; inside
  \<open>update_labels\<close> every admissible label below it is in use.
\<close>

fun state_inv :: "eq_state \<Rightarrow> bool" where
  "state_inv (Init c m) = (inv_map m \<and> 0 \<le> c \<and> c \<noteq> 9 \<and> keys m = {i. 1 \<le> i \<and> i \<le> c \<and> i \<noteq> 9})"
| "state_inv (Idle m) = (inv_map m \<and> m \<noteq> [])"
| "state_inv (Updating c m) =
     (inv_map m \<and> m \<noteq> [] \<and> 1 \<le> c \<and> (\<forall>i. 1 \<le> i \<and> i < c \<and> i \<noteq> 9 \<longrightarrow> i \<in> keys m))"

section \<open>Example inputs\<close>

text \<open>A row written as the six columns of the array.\<close>

definition row :: "real \<Rightarrow> real \<Rightarrow> real \<Rightarrow> int \<Rightarrow> int \<Rightarrow> int \<Rightarrow> point" where
  "row a b c t l s =
     \<lparr>x = a, y = b, z = c, true_label = t, predicted_label = l, scanline_id = s\<rparr>"


definition ex_ring :: cloud where
  "ex_ring = [row 0 0 0 0 0 0, row 5 5 5 0 0 0, row 0 0 1 0 0 0]"

text \<open>Three rows of heights 5, 0 and 1.\<close>

definition ex_heights :: cloud where
  "ex_heights = [row 0 0 5 0 0 0, row 1 0 0 0 0 0, row 2 0 1 0 0 0]"

text \<open>A plane estimator that always answers with the plane \<open>z = 0\<close>.\<close>

definition est_flat :: "vec3 list \<Rightarrow> plane option" where
  "est_flat pts = Some ((0, 0, 1), 0)"

text \<open>
  Three scanlines on a line: three separate points, then a run that reaches two of them,
  then a run that reaches both runs of the scanline before.
\<close>

definition ex_bridge :: cloud where
  "ex_bridge =
     [row 0 0 0 0 0 0, row 4 0 0 0 0 0, row 8 0 0 0 0 0,
      row 0 0 0 0 0 1, row 4 0 0 0 0 1, row 6 0 0 0 0 1, row 8 0 0 0 0 1,
      row 0 0 0 0 0 2, row 2 0 0 0 0 2, row 4 0 0 0 0 2]"


text \<open>A cloud whose rows are not in scanline order.\<close>

definition ex_unsorted :: cloud where
  "ex_unsorted = [row 0 0 0 0 0 1, row 0 0 0 0 0 0, row 100 0 0 0 0 0]"

section \<open>Properties of find\_runs\<close>

lemma forward_loop_inv:
  assumes "pts \<noteq> []" and "k \<le> length pts" and "1 \<le> k"
    and "foldl (forward_step pts thr) ([], [0]) [1..<k] = (runs, cur)"
  shows "concat runs @ rows_at pts cur = take k pts \<and> cur \<noteq> [] \<and> [] \<notin> set runs"
  using assms(2-)
proof (induction k arbitrary: runs cur)
  case 0
  then show ?case by simp
next
  case (Suc k)
  show ?case
  proof (cases "k = 0")
    case True
    with Suc.prems assms(1) show ?thesis
      by (cases pts) (auto simp: rows_at_def)
  next
    case False
    obtain runs0 cur0 where st: "foldl (forward_step pts thr) ([], [0]) [1..<k] = (runs0, cur0)"
      by (cases "foldl (forward_step pts thr) ([], [0]) [1..<k]")
    from False Suc.prems have k: "k \<le> length pts" "1 \<le> k" "k < length pts" by auto
    from Suc.IH [OF k(1) k(2) st]
    have ih: "concat runs0 @ rows_at pts cur0 = take k pts" "cur0 \<noteq> []" "[] \<notin> set runs0"
      by auto
    from k(2) have "[1..<Suc k] = [1..<k] @ [k]" by simp
    with Suc.prems(3) st have step: "forward_step pts thr (runs0, cur0) k = (runs, cur)"
      by simp
    have tk: "take (Suc k) pts = take k pts @ [pts ! k]"
      using k(3) by (simp add: take_Suc_conv_app_nth)
    from step ih tk show ?thesis
      by (auto simp: forward_step_def rows_at_def split: if_splits)
  qed
qed

lemma forward_pass_ok:
  assumes "pts \<noteq> []"
  obtains runs where "forward_pass pts thr = Inr runs" "concat runs = pts"
    "runs \<noteq> []" "[] \<notin> set runs"
proof -
  obtain runs0 cur0 where
    st: "foldl (forward_step pts thr) ([], [0]) [1..<length pts] = (runs0, cur0)"
    by (cases "foldl (forward_step pts thr) ([], [0]) [1..<length pts]")
  from assms have "1 \<le> length pts" by (cases pts) auto
  from forward_loop_inv [OF assms _ this st]
  have "concat runs0 @ rows_at pts cur0 = pts" "cur0 \<noteq> []" "[] \<notin> set runs0" by auto
  then have "forward_pass pts thr = Inr (runs0 @ [rows_at pts cur0])"
    "concat (runs0 @ [rows_at pts cur0]) = pts" "runs0 @ [rows_at pts cur0] \<noteq> []"
    "[] \<notin> set (runs0 @ [rows_at pts cur0])"
    using assms st by (auto simp: forward_pass_def rows_at_def)
  then show thesis by (rule that)
qed

lemma forward_pass_empty: "forward_pass [] thr = Inl IndexError"
  by (simp add: forward_pass_def)


lemma circular_merge_mset:
  assumes "runs \<noteq> []"
  shows "mset (concat (circular_merge pts thr runs)) = mset (concat runs)"
proof (cases "norm3 (pts ! 0) (last pts) < thr \<and> length runs > 1")
  case True
  then obtain r rs where rs: "runs = r # rs" "rs \<noteq> []" by (cases runs) auto
  then have "concat rs = concat (butlast rs) @ last rs"
    by (metis append_butlast_last_id concat.simps(1) concat.simps(2) concat_append append_Nil2)
  with True rs show ?thesis by (simp add: circular_merge_def)
next
  case False
  then show ?thesis by (auto simp: circular_merge_def)
qed

lemma circular_merge_nonempty:
  assumes "runs \<noteq> []" "[] \<notin> set runs"
  shows "circular_merge pts thr runs \<noteq> [] \<and> [] \<notin> set (circular_merge pts thr runs)"
proof (cases "norm3 (pts ! 0) (last pts) < thr \<and> length runs > 1")
  case True
  then obtain r rs where rs: "runs = r # rs" "rs \<noteq> []" by (cases runs) auto
  with assms have "[] \<notin> set (butlast rs)" by (auto dest: in_set_butlastD)
  with True rs assms show ?thesis by (auto simp: circular_merge_def)
next
  case False
  with assms show ?thesis by (auto simp: circular_merge_def)
qed

lemma find_runs_ok:
  assumes "pts \<noteq> []"
  obtains runs where "find_runs pts thr = Inr runs" "mset (concat runs) = mset pts"
    "runs \<noteq> []" "[] \<notin> set runs"
proof -
  from assms obtain fr where fr: "forward_pass pts thr = Inr fr" "concat fr = pts"
    "fr \<noteq> []" "[] \<notin> set fr"
    by (rule forward_pass_ok)
  have "find_runs pts thr = Inr (circular_merge pts thr fr)"
    using fr(1) by (simp add: find_runs_def)
  moreover have "mset (concat (circular_merge pts thr fr)) = mset pts"
    using circular_merge_mset [OF fr(3)] fr(2) by simp
  moreover have "circular_merge pts thr fr \<noteq> []" "[] \<notin> set (circular_merge pts thr fr)"
    using circular_merge_nonempty [OF fr(3,4)] by auto
  ultimately show thesis by (rule that)
qed

lemma norm3_less:
  "(norm3 p q < t) = (0 < t \<and> (x p - x q)\<^sup>2 + (y p - y q)\<^sup>2 + (z p - z q)\<^sup>2 < t\<^sup>2)"
proof -
  let ?s = "(x p - x q)\<^sup>2 + (y p - y q)\<^sup>2 + (z p - z q)\<^sup>2"
  have s: "0 \<le> ?s" by simp
  show ?thesis
  proof (cases "0 < t")
    case True
    then have "sqrt (t\<^sup>2) = t" by simp
    then have "(sqrt ?s < t) = (sqrt ?s < sqrt (t\<^sup>2))" by simp
    also have "\<dots> = (?s < t\<^sup>2)" by (rule real_sqrt_less_iff)
    finally show ?thesis using True by (simp add: norm3_def)
  next
    case False
    have "0 \<le> sqrt ?s" using s by simp
    with False have "\<not> sqrt ?s < t" by linarith
    with False show ?thesis by (simp add: norm3_def)
  qed
qed

lemmas run_eval =
  find_runs_def forward_pass_def circular_merge_def forward_step_def rows_at_def
  norm3_less row_def





text \<open>
  C10. On a non-empty scanline \<open>find_runs\<close> returns, and what it returns is a non-empty
  list of non-empty runs whose points, taken together, are the points of the scanline,
  each as often as it occurs there; so the run lengths add up to the number of points.
  The circular merge only changes the order.
\<close>

theorem find_runs_partition:
  assumes "pts \<noteq> []"
  shows "\<exists>runs. find_runs pts thr = Inr runs \<and> runs \<noteq> [] \<and> [] \<notin> set runs
           \<and> mset (concat runs) = mset pts
           \<and> sum_list (map length runs) = length pts"
proof -
  from assms obtain runs where r: "find_runs pts thr = Inr runs"
    "mset (concat runs) = mset pts" "runs \<noteq> []" "[] \<notin> set runs"
    by (rule find_runs_ok)
  from r(2) have "length (concat runs) = length pts"
    by (metis size_mset)
  then have "sum_list (map length runs) = length pts"
    by (simp add: length_concat)
  with r show ?thesis by blast
qed

theorem find_runs_partition_witness:
  "ex_ring \<noteq> []
   \<and> find_runs ex_ring 2 = Inr [[row 0 0 1 0 0 0, row 0 0 0 0 0 0], [row 5 5 5 0 0 0]]
   \<and> mset (concat [[row 0 0 1 0 0 0, row 0 0 0 0 0 0], [row 5 5 5 0 0 0]]) = mset ex_ring"
proof -
  have ne: "ex_ring \<noteq> []" by (simp add: ex_ring_def)
  have ev: "find_runs ex_ring 2 = Inr [[row 0 0 1 0 0 0, row 0 0 0 0 0 0], [row 5 5 5 0 0 0]]"
    by (simp add: ex_ring_def run_eval)
  from find_runs_partition [OF ne, of 2] ev ne show ?thesis by auto
qed

section \<open>Properties of the seed selection\<close>

lemma mask_select_map: "mask_select (map f xs) (map g xs) = map g (filter f xs)"
  by (induction xs) (auto simp: mask_select_def)

lemma mask_select_map_id: "mask_select (map f xs) xs = filter f xs"
  using mask_select_map [of f xs id] by simp

lemma heights_argsort: "map z (rows_at pc (argsort_z pc)) = sort (map z pc)"
proof -
  let ?f = "\<lambda>i. z (pc ! i)"
  let ?ys = "map ?f (sort_key ?f [0..<length pc])"
  have "map ?f [0..<length pc] = map z (map ((!) pc) [0..<length pc])"
    by (simp only: map_map comp_def)
  then have m: "map ?f [0..<length pc] = map z pc"
    by (simp only: map_nth)
  have "mset ?ys = mset (map ?f [0..<length pc])"
    by (simp only: mset_map mset_sort)
  then have "mset ?ys = mset (map z pc)"
    by (simp only: m)
  moreover have "sorted ?ys" by simp
  ultimately have "sort (map z pc) = ?ys" by (rule properties_for_sort)
  then show ?thesis by (simp add: rows_at_def argsort_z_def comp_def)
qed


lemma lpr_height:
  assumes "0 < num_points" "pc \<noteq> []"
  shows "mean (map z (slice_to num_points (rows_at pc (argsort_z pc))))
           = Some (lowest_point_representative pc (min (nat num_points) (length pc)))"
proof -
  let ?k = "min (nat num_points) (length pc)"
  let ?zs = "sort (map z pc)"
  have "map z (slice_to num_points (rows_at pc (argsort_z pc)))
          = take (nat num_points) (map z (rows_at pc (argsort_z pc)))"
    using assms(1) by (simp add: slice_to_def take_map)
  also have "\<dots> = take (nat num_points) ?zs"
    by (simp only: heights_argsort)
  also have "\<dots> = take ?k ?zs"
    by (simp add: min_def)
  finally have eq: "map z (slice_to num_points (rows_at pc (argsort_z pc))) = take ?k ?zs" .
  have len: "length (take ?k ?zs) = ?k" by simp
  from assms have "0 < ?k" by (cases pc) auto
  with len have "length (take ?k ?zs) \<noteq> 0" by linarith
  then have "take ?k ?zs \<noteq> []" by (simp only: length_0_conv not_False_eq_True)
  with eq len show ?thesis
    by (simp add: mean_def lowest_point_representative_def del: length_take)
qed



section \<open>Properties of the ground refinement\<close>

lemma mask_select_rows:
  "mask_select (map P pc) [0..<length pc] = filter (\<lambda>i. P (pc ! i)) [0..<length pc]"
proof -
  have "map P (map ((!) pc) [0..<length pc]) = map (\<lambda>i. P (pc ! i)) [0..<length pc]"
    by (simp only: map_map comp_def)
  then have "map P pc = map (\<lambda>i. P (pc ! i)) [0..<length pc]"
    by (simp only: map_nth)
  then show ?thesis
    by (simp only: mask_select_map_id)
qed


lemma set_labels_length [simp]: "length (set_labels pc idxs v) = length pc"
  unfolding set_labels_def by (induction idxs arbitrary: pc) auto

lemma set_labels_nth:
  assumes "i < length pc"
  shows "set_labels pc idxs v ! i
           = (if i \<in> set idxs then (pc ! i)\<lparr>predicted_label := v\<rparr> else pc ! i)"
  using assms unfolding set_labels_def
proof (induction idxs arbitrary: pc rule: rev_induct)
  case Nil
  then show ?case by simp
next
  case (snoc j js)
  have len: "length (foldl (\<lambda>c i. c[i := (c ! i)\<lparr>predicted_label := v\<rparr>]) pc js) = length pc"
    using set_labels_length [of pc js v] by (simp add: set_labels_def)
  show ?case
  proof (cases "i = j")
    case True
    with snoc len show ?thesis by simp
  next
    case False
    with snoc len show ?thesis by simp
  qed
qed

lemma set_labels_other_columns:
  "map other_columns (set_labels pc idxs v) = map other_columns pc"
  by (rule nth_equalityI) (auto simp: set_labels_nth other_columns_def)



lemma refine_ex:
  "refine_ground_plane est_flat ex_heights 2 1 2 5
     = (Inr ((0, 0, 1), 0), [row 0 0 5 0 0 0, row 1 0 0 0 9 0, row 2 0 1 0 9 0])"
  by (simp add: refine_ground_plane_def extract_initial_seed_indices_def argsort_z_def
      rows_at_def slice_to_def mean_def mask_select_def ex_heights_def row_def
      eval_nat_numeral est_flat_def ground_indices_def is_ground_def plane_distance_def
      vnorm_def dot3_def xyz_def set_labels_def)




text \<open>
  With no iteration \<open>refine_ground_plane\<close> does not return: it labels the initial seeds
  and then fails on the plane that was never bound.
\<close>

lemma refine_without_iteration:
  assumes "num_iterations \<le> 0"
  shows "refine_ground_plane est pc num_points ht thr num_iterations
           = (Inl UnboundLocalError,
              set_labels pc (extract_initial_seed_indices pc num_points ht) 9)"
  using assms by (simp add: refine_ground_plane_def Let_def)

section \<open>Frame of the pipeline\<close>

lemma write_pairs_length:
  "length (foldl (\<lambda>c (i, v). c[i := (c ! i)\<lparr>predicted_label := v\<rparr>]) pc ps) = length pc"
  by (induction ps arbitrary: pc) auto

lemma update_other_columns:
  "map other_columns (pc[i := (pc ! i)\<lparr>predicted_label := v\<rparr>]) = map other_columns pc"
proof (cases "i < length pc")
  case True
  have "other_columns ((pc ! i)\<lparr>predicted_label := v\<rparr>) = map other_columns pc ! i"
    using True by (simp add: other_columns_def)
  then show ?thesis
    by (simp add: map_update)
next
  case False
  then have "length pc \<le> i" by linarith
  then have "pc[i := (pc ! i)\<lparr>predicted_label := v\<rparr>] = pc"
    by (rule list_update_beyond)
  then show ?thesis by (simp only:)
qed

lemma write_pairs_other_columns:
  "map other_columns (foldl (\<lambda>c (i, v). c[i := (c ! i)\<lparr>predicted_label := v\<rparr>]) pc ps)
     = map other_columns pc"
proof (induction ps arbitrary: pc)
  case Nil
  then show ?case by simp
next
  case (Cons a ps)
  obtain i v where a: "a = (i, v)" by (cases a)
  have "map other_columns (pc[i := (pc ! i)\<lparr>predicted_label := v\<rparr>]) = map other_columns pc"
    by (rule update_other_columns)
  with Cons show ?case by (simp add: a)
qed

lemma write_pairs_untouched:
  assumes "i \<notin> fst ` set ps"
  shows "foldl (\<lambda>c (i, v). c[i := (c ! i)\<lparr>predicted_label := v\<rparr>]) pc ps ! i = pc ! i"
  using assms
proof (induction ps arbitrary: pc)
  case Nil
  then show ?case by simp
next
  case (Cons a ps)
  obtain j v where a: "a = (j, v)" by (cases a)
  with Cons.prems have "i \<noteq> j" "i \<notin> fst ` set ps" by auto
  with Cons.IH [of "pc[j := (pc ! j)\<lparr>predicted_label := v\<rparr>]"] show ?case
    by (simp add: a)
qed

lemma write_labels_length [simp]: "length (write_labels pc idxs vs) = length pc"
  unfolding write_labels_def by (rule write_pairs_length)

lemma write_labels_other_columns:
  "map other_columns (write_labels pc idxs vs) = map other_columns pc"
  unfolding write_labels_def by (rule write_pairs_other_columns)

lemma write_labels_untouched:
  assumes "i \<notin> set idxs"
  shows "write_labels pc idxs vs ! i = pc ! i"
proof -
  from assms have "i \<notin> fst ` set (zip idxs vs)"
    by (auto dest: set_zip_leftD)
  then show ?thesis unfolding write_labels_def by (rule write_pairs_untouched)
qed

lemma slr_cases:
  "snd (scan_line_run_clustering pc d m) = pc
   \<or> (\<exists>labels. snd (scan_line_run_clustering pc d m)
         = write_labels pc (filter (\<lambda>i. predicted_label (pc ! i) = 0) [0..<length pc]) labels)"
  unfolding scan_line_run_clustering_def Let_def mask_select_rows
  by (auto split: sum.splits prod.splits)

lemma slr_other_columns:
  "map other_columns (snd (scan_line_run_clustering pc d m)) = map other_columns pc"
  using slr_cases [of pc d m] by (auto simp: write_labels_other_columns)

lemma slr_untouched:
  assumes "i < length pc" "predicted_label (pc ! i) \<noteq> 0"
  shows "snd (scan_line_run_clustering pc d m) ! i = pc ! i"
proof -
  from assms have "i \<notin> set (filter (\<lambda>i. predicted_label (pc ! i) = 0) [0..<length pc])"
    by simp
  then show ?thesis
    using slr_cases [of pc d m] by (auto simp: write_labels_untouched)
qed

lemma refine_cases:
  "snd (refine_ground_plane est pc np ht dt ni) = pc
   \<or> (\<exists>idxs. snd (refine_ground_plane est pc np ht dt ni) = set_labels pc idxs 9)"
  unfolding refine_ground_plane_def Let_def
  by (auto split: sum.splits prod.splits option.splits)

lemma refine_other_columns:
  "map other_columns (snd (refine_ground_plane est pc np ht dt ni)) = map other_columns pc"
  using refine_cases [of est pc np ht dt ni] by (auto simp: set_labels_other_columns)

text \<open>
  C3. Whatever the outcome of the two calls, \<open>refine_ground_plane\<close> followed by
  \<open>scan_line_run_clustering\<close> leaves the columns x, y, z, true\_label and
  scanline\_id of every row as they were, and \<open>scan_line_run_clustering\<close> leaves
  every row unchanged that entered it with a label other than 0.
\<close>

theorem pipeline_frame:
  "map other_columns (snd (refine_ground_plane est pc np ht dt ni)) = map other_columns pc
   \<and> map other_columns
        (snd (scan_line_run_clustering (snd (refine_ground_plane est pc np ht dt ni)) d m))
       = map other_columns pc
   \<and> (\<forall>i<length pc.
         predicted_label (snd (refine_ground_plane est pc np ht dt ni) ! i) \<noteq> 0 \<longrightarrow>
         snd (scan_line_run_clustering (snd (refine_ground_plane est pc np ht dt ni)) d m) ! i
           = snd (refine_ground_plane est pc np ht dt ni) ! i)"
proof -
  let ?pc1 = "snd (refine_ground_plane est pc np ht dt ni)"
  have a: "map other_columns ?pc1 = map other_columns pc"
    by (rule refine_other_columns)
  then have "length ?pc1 = length pc"
    by (metis length_map)
  with a show ?thesis
    by (simp add: slr_other_columns slr_untouched)
qed

section \<open>Evaluating the clustering on the examples\<close>

lemma row_sel [simp]:
  "x (row a b c t l s) = a" "y (row a b c t l s) = b" "z (row a b c t l s) = c"
  "true_label (row a b c t l s) = t" "predicted_label (row a b c t l s) = l"
  "scanline_id (row a b c t l s) = s"
  by (simp_all add: row_def)

lemma row_upd [simp]: "(row a b c t l s)\<lparr>predicted_label := l'\<rparr> = row a b c t l' s"
  by (simp add: row_def)

lemma row_eq [simp]:
  "(row a b c t l s = row a' b' c' t' l' s')
     = (a = a' \<and> b = b' \<and> c = c' \<and> t = t' \<and> l = l' \<and> s = s')"
  by (auto simp: row_def)

lemma norm3_on_axis: "y p = y q \<Longrightarrow> z p = z q \<Longrightarrow> norm3 p q = \<bar>x p - x q\<bar>"
  by (simp add: norm3_def)

lemmas runs_on_axis =
  find_runs_def forward_pass_def circular_merge_def forward_step_def rows_at_def norm3_on_axis

lemmas labels_on_axis =
  update_labels_def close_indices_def nearest_def mask_select_def norm3_on_axis
  resolve_label.simps inherit_and_unify_labels_def assign_new_label_def set_run_label_def
  vals_def keys_def skip_used.simps

lemma slr_after_refine_ex:
  "scan_line_run_clustering [row 0 0 5 0 0 0, row 1 0 0 0 9 0, row 2 0 1 0 9 0] 1 1
     = (None, [row 0 0 5 0 1 0, row 1 0 0 0 9 0, row 2 0 1 0 9 0])"
  by (simp add: scan_line_run_clustering_def cluster_non_ground_def group_by_scanline_def
      mask_select_def runs_on_axis first_label_def set_run_label_def extract_clusters_def
      write_labels_def)

theorem pipeline_frame_witness:
  "snd (refine_ground_plane est_flat ex_heights 2 1 2 5)
     = [row 0 0 5 0 0 0, row 1 0 0 0 9 0, row 2 0 1 0 9 0]
   \<and> snd (scan_line_run_clustering (snd (refine_ground_plane est_flat ex_heights 2 1 2 5)) 1 1)
     = [row 0 0 5 0 1 0, row 1 0 0 0 9 0, row 2 0 1 0 9 0]
   \<and> map other_columns [row 0 0 5 0 1 0, row 1 0 0 0 9 0, row 2 0 1 0 9 0]
     = map other_columns ex_heights"
proof -
  have a: "snd (refine_ground_plane est_flat ex_heights 2 1 2 5)
             = [row 0 0 5 0 0 0, row 1 0 0 0 9 0, row 2 0 1 0 9 0]"
    by (simp add: refine_ex)
  have b: "snd (scan_line_run_clustering
                  (snd (refine_ground_plane est_flat ex_heights 2 1 2 5)) 1 1)
             = [row 0 0 5 0 1 0, row 1 0 0 0 9 0, row 2 0 1 0 9 0]"
    by (simp add: a slr_after_refine_ex)
  from pipeline_frame [of est_flat ex_heights 2 1 2 5 1 1]
  have "map other_columns
          (snd (scan_line_run_clustering
                  (snd (refine_ground_plane est_flat ex_heights 2 1 2 5)) 1 1))
          = map other_columns ex_heights"
    by blast
  with a b show ?thesis by simp
qed

lemma group_ex_bridge:
  "group_by_scanline ex_bridge =
     [[row 0 0 0 0 0 0, row 4 0 0 0 0 0, row 8 0 0 0 0 0],
      [row 0 0 0 0 0 1, row 4 0 0 0 0 1, row 6 0 0 0 0 1, row 8 0 0 0 0 1],
      [row 0 0 0 0 0 2, row 2 0 0 0 0 2, row 4 0 0 0 0 2]]"
  by (simp add: group_by_scanline_def mask_select_def ex_bridge_def)

lemma runs_ex_bridge_0:
  "find_runs [row 0 0 0 0 0 0, row 4 0 0 0 0 0, row 8 0 0 0 0 0] 3
     = Inr [[row 0 0 0 0 0 0], [row 4 0 0 0 0 0], [row 8 0 0 0 0 0]]"
  by (simp add: runs_on_axis)

lemma runs_ex_bridge_1:
  "find_runs [row 0 0 0 0 0 1, row 4 0 0 0 0 1, row 6 0 0 0 0 1, row 8 0 0 0 0 1] 3
     = Inr [[row 0 0 0 0 0 1], [row 4 0 0 0 0 1, row 6 0 0 0 0 1, row 8 0 0 0 0 1]]"
  by (simp add: runs_on_axis)

lemma runs_ex_bridge_2:
  "find_runs [row 0 0 0 0 0 2, row 2 0 0 0 0 2, row 4 0 0 0 0 2] 3
     = Inr [[row 0 0 0 0 0 2, row 2 0 0 0 0 2, row 4 0 0 0 0 2]]"
  by (simp add: runs_on_axis)

lemma first_ex_bridge:
  "label_first [[row 0 0 0 0 0 0], [row 4 0 0 0 0 0], [row 8 0 0 0 0 0]] 0 []
     = ([[row 0 0 0 0 1 0], [row 4 0 0 0 2 0], [row 8 0 0 0 3 0]], 3, [(1, 1), (2, 2), (3, 3)])"
  by (simp add: first_label_def set_run_label_def)

lemma update_ex_bridge_1:
  "update_labels [[row 0 0 0 0 0 1], [row 4 0 0 0 0 1, row 6 0 0 0 0 1, row 8 0 0 0 0 1]]
     [[row 0 0 0 0 1 0], [row 4 0 0 0 2 0], [row 8 0 0 0 3 0]] [(1, 1), (2, 2), (3, 3)] 1
   = Inr ([[row 0 0 0 0 1 1], [row 4 0 0 0 2 1, row 6 0 0 0 2 1, row 8 0 0 0 2 1]],
          [(1, 1), (2, 2), (3, 2)])"
  by (simp add: labels_on_axis)

lemma update_ex_bridge_2:
  "update_labels [[row 0 0 0 0 0 2, row 2 0 0 0 0 2, row 4 0 0 0 0 2]]
     [[row 0 0 0 0 1 1], [row 4 0 0 0 2 1, row 6 0 0 0 2 1, row 8 0 0 0 2 1]]
     [(1, 1), (2, 2), (3, 2)] 1
   = Inr ([[row 0 0 0 0 1 2, row 2 0 0 0 1 2, row 4 0 0 0 1 2]], [(1, 1), (2, 1), (3, 2)])"
  by (simp add: labels_on_axis)

lemma cluster_ex_bridge:
  "cluster_non_ground ex_bridge 3 1 =
     Inr ([row 0 0 0 0 1 0, row 4 0 0 0 1 0, row 8 0 0 0 2 0,
           row 0 0 0 0 1 1, row 4 0 0 0 1 1, row 6 0 0 0 1 1, row 8 0 0 0 1 1,
           row 0 0 0 0 1 2, row 2 0 0 0 1 2, row 4 0 0 0 1 2],
          [(1, 1), (2, 1), (3, 2)])"
  by (simp add: cluster_non_ground_def group_ex_bridge runs_ex_bridge_0 runs_ex_bridge_1
      runs_ex_bridge_2 first_ex_bridge update_ex_bridge_1 update_ex_bridge_2
      extract_clusters_def del: label_first.simps)

lemma slr_ex_bridge:
  "scan_line_run_clustering ex_bridge 3 1 =
     (None, [row 0 0 0 0 1 0, row 4 0 0 0 1 0, row 8 0 0 0 2 0,
             row 0 0 0 0 1 1, row 4 0 0 0 1 1, row 6 0 0 0 1 1, row 8 0 0 0 1 1,
             row 0 0 0 0 1 2, row 2 0 0 0 1 2, row 4 0 0 0 1 2])"
proof -
  have m: "mask_select (map (\<lambda>p. predicted_label p = 0) ex_bridge) ex_bridge = ex_bridge"
    by (simp add: ex_bridge_def mask_select_def)
  have i: "mask_select (map (\<lambda>p. predicted_label p = 0) ex_bridge) [0..<length ex_bridge]
             = [0, 1, 2, 3, 4, 5, 6, 7, 8, 9]"
    by (simp add: ex_bridge_def mask_select_def)
  have n: "ex_bridge \<noteq> []"
    "length (filter id (map (\<lambda>p. predicted_label p = 0) ex_bridge)) \<noteq> 0"
    by (simp_all add: ex_bridge_def)
  show ?thesis
    unfolding scan_line_run_clustering_def Let_def m i cluster_ex_bridge using n
    by (simp add: write_labels_def ex_bridge_def)
qed

section \<open>Invariants of the label equivalences\<close>

lemma skip_used_spec:
  "c \<le> skip_used m c \<and> skip_used m c \<noteq> 9 \<and> skip_used m c \<notin> keys m
   \<and> (\<forall>j. c \<le> j \<and> j < skip_used m c \<longrightarrow> j = 9 \<or> j \<in> keys m)"
proof (induction m c rule: skip_used.induct)
  case (1 m c)
  show ?case
  proof (cases "c = 9 \<or> c \<in> keys m")
    case True
    then have eq: "skip_used m c = skip_used m (c + 1)"
      by (simp add: skip_used.simps [of m c])
    from "1.IH" [OF True] have ih:
      "c + 1 \<le> skip_used m (c + 1)" "skip_used m (c + 1) \<noteq> 9" "skip_used m (c + 1) \<notin> keys m"
      "\<forall>j. c + 1 \<le> j \<and> j < skip_used m (c + 1) \<longrightarrow> j = 9 \<or> j \<in> keys m"
      by auto
    have "\<forall>j. c \<le> j \<and> j < skip_used m (c + 1) \<longrightarrow> j = 9 \<or> j \<in> keys m"
    proof (intro allI impI)
      fix j assume j: "c \<le> j \<and> j < skip_used m (c + 1)"
      show "j = 9 \<or> j \<in> keys m"
      proof (cases "j = c")
        case True
        with \<open>c = 9 \<or> c \<in> keys m\<close> show ?thesis by simp
      next
        case False
        with j have "c + 1 \<le> j \<and> j < skip_used m (c + 1)" by linarith
        with ih(4) show ?thesis by blast
      qed
    qed
    with ih eq show ?thesis by simp
  next
    case False
    then have "skip_used m c = c" by (simp add: skip_used.simps [of m c])
    with False show ?thesis by simp
  qed
qed

lemma keys_update: "keys (AList.update k v m) = insert k (keys m)"
  by (simp add: keys_def dom_update)

lemma keys_map_of: "(a \<in> keys m) = (\<exists>b. map_of m a = Some b)"
proof -
  have "(a \<in> keys m) = (map_of m a \<noteq> None)"
    by (simp add: keys_def map_of_eq_None_iff)
  then show ?thesis by simp
qed

lemma vals_map_of: "distinct (map fst m) \<Longrightarrow> (b \<in> vals m) = (\<exists>a. map_of m a = Some b)"
  unfolding vals_def by (simp add: ran_distinct [symmetric] ran_def)

lemma inv_map_empty: "inv_map []"
proof -
  have "keys [] = {i. 1 \<le> i \<and> i \<le> 0 \<and> i \<noteq> (9::int)}"
    by (auto simp: keys_def)
  then have "\<exists>k. keys [] = {i. 1 \<le> i \<and> i \<le> k \<and> i \<noteq> (9::int)}" ..
  then show ?thesis by (simp add: inv_map_def)
qed

lemma inv_map_new:
  assumes "inv_map m" "l \<notin> keys m" "l \<noteq> 9" "1 \<le> l"
    "\<forall>j. 1 \<le> j \<and> j < l \<and> j \<noteq> 9 \<longrightarrow> j \<in> keys m"
  shows "inv_map (AList.update l l m)" "keys (AList.update l l m) = {i. 1 \<le> i \<and> i \<le> l \<and> i \<noteq> 9}"
proof -
  from assms(1) obtain k where k: "keys m = {i. 1 \<le> i \<and> i \<le> k \<and> i \<noteq> 9}"
    by (auto simp: inv_map_def)
  have km: "keys m = {i. 1 \<le> i \<and> i < l \<and> i \<noteq> 9}"
  proof (rule set_eqI)
    fix i
    show "(i \<in> keys m) = (i \<in> {i. 1 \<le> i \<and> i < l \<and> i \<noteq> 9})"
    proof
      assume i: "i \<in> keys m"
      with k have ik: "1 \<le> i" "i \<le> k" "i \<noteq> 9" by auto
      have "i < l"
      proof (rule ccontr)
        assume "\<not> i < l"
        with ik assms(3,4) have "1 \<le> l \<and> l \<le> k \<and> l \<noteq> 9" by linarith
        with k have "l \<in> keys m" by simp
        with assms(2) show False by simp
      qed
      with ik show "i \<in> {i. 1 \<le> i \<and> i < l \<and> i \<noteq> 9}" by simp
    next
      assume "i \<in> {i. 1 \<le> i \<and> i < l \<and> i \<noteq> 9}"
      with assms(5) show "i \<in> keys m" by simp
    qed
  qed
  have "insert l {i. 1 \<le> i \<and> i < l \<and> i \<noteq> 9} = {i. 1 \<le> i \<and> i \<le> l \<and> i \<noteq> 9}"
    using assms(3,4) by auto
  then show ks: "keys (AList.update l l m) = {i. 1 \<le> i \<and> i \<le> l \<and> i \<noteq> 9}"
    by (simp only: keys_update km)
  have d: "distinct (map fst (AList.update l l m))"
    using assms(1) by (simp add: inv_map_def distinct_update)
  have old: "\<forall>a b. map_of m a = Some b \<longrightarrow> b \<in> keys m \<and> b \<le> a"
    using assms(1) by (simp add: inv_map_def)
  have p: "\<forall>a b. map_of (AList.update l l m) a = Some b
              \<longrightarrow> b \<in> keys (AList.update l l m) \<and> b \<le> a"
  proof (intro allI impI)
    fix a b assume ab: "map_of (AList.update l l m) a = Some b"
    show "b \<in> keys (AList.update l l m) \<and> b \<le> a"
    proof (cases "a = l")
      case True
      with ab have "b = l" by (simp add: update_conv')
      with True show ?thesis by (simp add: keys_update)
    next
      case False
      with ab have "map_of m a = Some b" by (simp add: update_conv')
      with old show ?thesis by (simp add: keys_update)
    qed
  qed
  from ks have "\<exists>k. keys (AList.update l l m) = {i. 1 \<le> i \<and> i \<le> k \<and> i \<noteq> 9}" ..
  with d p show "inv_map (AList.update l l m)"
    unfolding inv_map_def by (intro conjI)
qed


lemma resolve_label_root_aux:
  assumes "resolve_label m l = Some out"
  shows "\<forall>r. out = Inr r \<longrightarrow> map_of m r = Some r"
proof (rule resolve_label.raw_induct
    [where P = "\<lambda>m l out. \<forall>r. out = Inr r \<longrightarrow> map_of m r = Some r", OF _ assms])
  fix res :: "label_map \<Rightarrow> int \<Rightarrow> (error + int) option" and m' l' out'
  assume ih: "\<And>m l out. res m l = Some out \<Longrightarrow> \<forall>r. out = Inr r \<longrightarrow> map_of m r = Some r"
    and eq: "(case map_of m' l' of None \<Rightarrow> Some (Inl KeyError)
              | Some v \<Rightarrow> if l' \<noteq> v then res m' v else Some (Inr l')) = Some out'"
  show "\<forall>r. out' = Inr r \<longrightarrow> map_of m' r = Some r"
  proof (cases "map_of m' l'")
    case None
    with eq show ?thesis by auto
  next
    case (Some v)
    show ?thesis
    proof (cases "l' = v")
      case True
      with Some eq show ?thesis by auto
    next
      case False
      with Some eq have "res m' v = Some out'" by simp
      then show ?thesis by (rule ih)
    qed
  qed
qed

lemma resolve_label_root:
  "resolve_label m l = Some (Inr r) \<Longrightarrow> map_of m r = Some r"
  using resolve_label_root_aux [of m l "Inr r"] by simp


lemma map_of_unify:
  "map_of (foldl (\<lambda>m' lbl. AList.update lbl v m') m nl) a
     = (if a \<in> set nl then Some v else map_of m a)"
  by (induction nl arbitrary: m) (auto simp: update_conv')

lemma keys_unify: "keys (foldl (\<lambda>m' lbl. AList.update lbl v m') m nl) = keys m \<union> set nl"
  by (induction nl arbitrary: m) (auto simp: keys_update)

lemma distinct_unify:
  "distinct (map fst m) \<Longrightarrow> distinct (map fst (foldl (\<lambda>m' lbl. AList.update lbl v m') m nl))"
  by (induction nl arbitrary: m) (auto simp: distinct_update)

lemma inv_map_unify:
  assumes "inv_map m" "nl \<noteq> []" "\<forall>r\<in>set nl. map_of m r = Some r"
  shows "inv_map (foldl (\<lambda>m' lbl. AList.update lbl (Min (set nl)) m') m nl)"
    and "keys (foldl (\<lambda>m' lbl. AList.update lbl (Min (set nl)) m') m nl) = keys m"
proof -
  let ?v = "Min (set nl)"
  let ?m' = "foldl (\<lambda>m' lbl. AList.update lbl ?v m') m nl"
  from assms(3) have sub: "set nl \<subseteq> keys m"
    by (auto simp: keys_map_of)
  then show ks: "keys ?m' = keys m"
    by (auto simp: keys_unify)
  from assms(2) have vin: "?v \<in> set nl" by simp
  have vle: "\<forall>a\<in>set nl. ?v \<le> a" by simp
  from assms(1) have old: "\<forall>a b. map_of m a = Some b \<longrightarrow> b \<in> keys m \<and> b \<le> a"
    and d: "distinct (map fst m)"
    and k: "\<exists>k. keys m = {i. 1 \<le> i \<and> i \<le> k \<and> i \<noteq> 9}"
    by (simp_all add: inv_map_def)
  have p: "\<forall>a b. map_of ?m' a = Some b \<longrightarrow> b \<in> keys ?m' \<and> b \<le> a"
  proof (intro allI impI)
    fix a b assume ab: "map_of ?m' a = Some b"
    show "b \<in> keys ?m' \<and> b \<le> a"
    proof (cases "a \<in> set nl")
      case True
      with ab have "b = ?v" by (simp add: map_of_unify)
      with True vin vle sub ks show ?thesis by auto
    next
      case False
      with ab have "map_of m a = Some b" by (simp add: map_of_unify)
      with old ks show ?thesis by simp
    qed
  qed
  from d have "distinct (map fst ?m')" by (rule distinct_unify)
  with p k ks show "inv_map ?m'"
    unfolding inv_map_def by simp
qed

lemma resolve_total:
  assumes "inv_map m" "a \<in> keys m"
  shows "\<exists>r. resolve_label m a = Some (Inr r) \<and> r \<le> a \<and> map_of m r = Some r"
  using assms(2)
proof (induction "nat a" arbitrary: a rule: less_induct)
  case less
  from assms(1) have old: "\<forall>a b. map_of m a = Some b \<longrightarrow> b \<in> keys m \<and> b \<le> a"
    and k: "\<exists>k. keys m = {i. 1 \<le> i \<and> i \<le> k \<and> i \<noteq> 9}"
    by (simp_all add: inv_map_def)
  from less.prems obtain b where b: "map_of m a = Some b"
    by (auto simp: keys_map_of)
  with old have bk: "b \<in> keys m" "b \<le> a" by auto
  from k bk(1) have "1 \<le> b" by auto
  show ?case
  proof (cases "a = b")
    case True
    with b have "resolve_label m a = Some (Inr a)"
      by (subst resolve_label.simps) simp
    with b True show ?thesis by simp
  next
    case False
    with bk \<open>1 \<le> b\<close> have "nat b < nat a" by linarith
    from less.hyps [OF this bk(1)] obtain r where
      r: "resolve_label m b = Some (Inr r)" "r \<le> b" "map_of m r = Some r" by blast
    from b False have "resolve_label m a = resolve_label m b"
      by (subst resolve_label.simps) simp
    with r bk(2) show ?thesis by auto
  qed
qed

lemma inv_step:
  assumes "step s s'" "state_inv s"
  shows "state_inv s'"
  using assms
proof (induction rule: step.induct)
  case (first_run c m)
  let ?l = "first_label c"
  from first_run have im: "inv_map m" and c: "0 \<le> c" "c \<noteq> 9"
    and ks: "keys m = {i. 1 \<le> i \<and> i \<le> c \<and> i \<noteq> 9}" by auto
  have l: "?l = (if c = 8 then 10 else c + 1)"
    by (simp add: first_label_def Let_def)
  with c ks have a: "?l \<notin> keys m" "?l \<noteq> 9" "1 \<le> ?l" by auto
  have b: "\<forall>j. 1 \<le> j \<and> j < ?l \<and> j \<noteq> 9 \<longrightarrow> j \<in> keys m"
    using l ks by auto
  from inv_map_new [OF im a b] a(2,3) show ?case by simp
next
  case (first_done m c)
  then show ?case by simp
next
  case (enter m)
  then have im: "inv_map m" and ne: "m \<noteq> []" by auto
  from im obtain k where k: "keys m = {i. 1 \<le> i \<and> i \<le> k \<and> i \<noteq> 9}"
    by (auto simp: inv_map_def)
  from ne have "vals m \<noteq> {}" "finite (vals m)" by (auto simp: vals_def)
  then have "Max (vals m) \<in> vals m" by (rule_tac Max_in)
  then obtain a where "map_of m a = Some (Max (vals m))"
    using im by (auto simp: vals_map_of inv_map_def)
  with im have "Max (vals m) \<in> keys m" by (auto simp: inv_map_def)
  with k have mx: "1 \<le> Max (vals m)" "Max (vals m) \<le> k" by auto
  then have "\<forall>i. 1 \<le> i \<and> i < Max (vals m) + 1 \<and> i \<noteq> 9 \<longrightarrow> i \<in> keys m"
    using k by auto
  with im ne mx show ?case by simp
next
  case (new_label run m c run' m' c')
  let ?l = "skip_used m c"
  from new_label have im: "inv_map m" and ne: "m \<noteq> []" and c: "1 \<le> c"
    and below: "\<forall>i. 1 \<le> i \<and> i < c \<and> i \<noteq> 9 \<longrightarrow> i \<in> keys m" by auto
  from new_label(1) have m': "m' = AList.update ?l ?l m" and c': "c' = ?l + 1"
    by (auto simp: assign_new_label_def Let_def)
  from skip_used_spec [of c m] have sp: "c \<le> ?l" "?l \<noteq> 9" "?l \<notin> keys m"
    "\<forall>j. c \<le> j \<and> j < ?l \<longrightarrow> j = 9 \<or> j \<in> keys m" by auto
  from sp(1) c have l1: "1 \<le> ?l" by linarith
  have b: "\<forall>j. 1 \<le> j \<and> j < ?l \<and> j \<noteq> 9 \<longrightarrow> j \<in> keys m"
  proof (intro allI impI)
    fix j assume j: "1 \<le> j \<and> j < ?l \<and> j \<noteq> 9"
    show "j \<in> keys m"
    proof (cases "j < c")
      case True
      with j below show ?thesis by simp
    next
      case False
      with j have "c \<le> j \<and> j < ?l" by linarith
      with sp(4) have "j = 9 \<or> j \<in> keys m" by blast
      with j show ?thesis by blast
    qed
  qed
  from inv_map_new [OF im sp(3) sp(2) l1 b]
  have im': "inv_map m'" and ks': "keys m' = {i. 1 \<le> i \<and> i \<le> ?l \<and> i \<noteq> 9}"
    by (simp_all add: m')
  have "m' \<noteq> []" using ks' l1 sp(2) by (auto simp: keys_def)
  with im' ks' l1 show ?case by (simp add: c')
next
  case (unify run nl m run' m' c)
  then have im: "inv_map m" and ne: "m \<noteq> []" and c: "1 \<le> c"
    and below: "\<forall>i. 1 \<le> i \<and> i < c \<and> i \<noteq> 9 \<longrightarrow> i \<in> keys m" by auto
  from unify(1) have nl: "nl \<noteq> []"
    and m': "m' = foldl (\<lambda>m' lbl. AList.update lbl (Min (set nl)) m') m nl"
    by (auto simp: inherit_and_unify_labels_def Let_def split: if_splits)
  from unify(2) have roots: "\<forall>r\<in>set nl. map_of m r = Some r"
    by (auto dest: resolve_label_root)
  from inv_map_unify [OF im nl roots]
  have im': "inv_map m'" and ks': "keys m' = keys m" by (simp_all add: m')
  from ks' ne have "m' \<noteq> []" by (auto simp: keys_def)
  with im' ks' c below show ?case by simp
next
  case (leave c m)
  then show ?case by simp
qed

lemma reachable_inv: "reachable s \<Longrightarrow> state_inv s"
  unfolding reachable_def
proof (induction rule: rtranclp_induct)
  case base
  show ?case by (simp add: inv_map_empty keys_def)
next
  case (step s s')
  from inv_step [OF step(2) step(3)] show ?case .
qed

section \<open>Grouping, nearest rows and lookups never fail\<close>

lemma indicator_sum:
  "distinct ids \<Longrightarrow> (\<Sum>s\<leftarrow>ids. if a = s then 1 else 0::nat) = (if a \<in> set ids then 1 else 0)"
  by (induction ids) auto

lemma group_sizes:
  assumes "distinct ids" "f ` set pc \<subseteq> set ids"
  shows "(\<Sum>s\<leftarrow>ids. length (filter (\<lambda>p. f p = s) pc)) = length pc"
  using assms(2)
proof (induction pc)
  case Nil
  then show ?case by simp
next
  case (Cons p pc)
  have "(\<Sum>s\<leftarrow>ids. length (filter (\<lambda>q. f q = s) (p # pc)))
          = (\<Sum>s\<leftarrow>ids. (if f p = s then 1 else 0) + length (filter (\<lambda>q. f q = s) pc))"
    by (rule arg_cong [where f = sum_list]) simp
  also have "\<dots> = (\<Sum>s\<leftarrow>ids. if f p = s then 1 else 0)
                    + (\<Sum>s\<leftarrow>ids. length (filter (\<lambda>q. f q = s) pc))"
    by (rule sum_list_addf)
  also have "\<dots> = 1 + length pc"
    using Cons assms(1) by (simp add: indicator_sum)
  finally show ?case by simp
qed

lemma group_by_scanline_filter:
  "group_by_scanline pc =
     map (\<lambda>s_id. filter (\<lambda>p. scanline_id p = s_id) pc) (remdups (sort (map scanline_id pc)))"
  unfolding group_by_scanline_def Let_def map_map comp_def
  by (simp only: mask_select_map_id)

lemma group_by_scanline_ok:
  assumes "pc \<noteq> []"
  shows "group_by_scanline pc \<noteq> []" "[] \<notin> set (group_by_scanline pc)"
    "sum_list (map length (group_by_scanline pc)) = length pc"
proof -
  let ?ids = "remdups (sort (map scanline_id pc))"
  have s: "set ?ids = scanline_id ` set pc" by simp
  have "?ids \<noteq> []"
  proof
    assume "?ids = []"
    then have "set ?ids = {}" by (simp only: set_simps)
    with s assms show False by simp
  qed
  then show "group_by_scanline pc \<noteq> []"
    by (simp add: group_by_scanline_filter)
  show "[] \<notin> set (group_by_scanline pc)"
  proof
    assume "[] \<in> set (group_by_scanline pc)"
    then obtain s_id where sid: "s_id \<in> set ?ids"
      and e: "[] = filter (\<lambda>p. scanline_id p = s_id) pc"
      unfolding group_by_scanline_filter by auto
    from sid s obtain p where "p \<in> set pc" "scanline_id p = s_id" by auto
    then have "p \<in> set (filter (\<lambda>p. scanline_id p = s_id) pc)" by simp
    with e [symmetric] show False by simp
  qed
  have "distinct ?ids" by simp
  from group_sizes [OF this, of scanline_id pc] s
  show "sum_list (map length (group_by_scanline pc)) = length pc"
    by (simp add: group_by_scanline_filter comp_def)
qed

lemma nearest_fold_bound:
  assumes "snd best < n" "\<forall>j\<in>set js. j < n"
  shows "snd (foldl (\<lambda>best j. if norm3 q (pts ! j) < fst best then (norm3 q (pts ! j), j) else best)
                best js) < n"
  using assms by (induction js arbitrary: best) auto

lemma nearest_index:
  assumes "pts \<noteq> []"
  shows "snd (nearest pts q) < length pts"
  unfolding nearest_def using assms by (intro nearest_fold_bound) auto

lemma set_mask_select: "set (mask_select bs xs) \<subseteq> set xs"
  unfolding mask_select_def by (auto dest: set_zip_rightD)

lemma close_indices_bound:
  assumes "pa \<noteq> []" "i \<in> set (close_indices pa mthr run)"
  shows "i < length pa"
proof -
  have "set (close_indices pa mthr run) \<subseteq> set (map snd (map (nearest pa) run))"
    unfolding close_indices_def Let_def by (rule set_mask_select)
  with assms(2) have "i \<in> set (map snd (map (nearest pa) run))" ..
  then obtain q where "i = snd (nearest pa q)" by auto
  with nearest_index [OF assms(1), of q] show ?thesis by simp
qed


lemma collect_labels_roots:
  assumes "collect_labels m pa idxs acc = Inr nl"
  shows "set nl \<subseteq> set acc \<union> {r. \<exists>l. resolve_label m l = Some (Inr r)}"
  using assms
proof (induction idxs arbitrary: acc)
  case Nil
  then show ?case by auto
next
  case (Cons idx idxs)
  from Cons.prems obtain r where r: "resolve_label m (predicted_label (pa ! idx)) = Some (Inr r)"
    and rec: "collect_labels m pa idxs (List.insert r acc) = Inr nl"
    by (auto split: if_splits option.splits sum.splits)
  from Cons.IH [OF rec] r show ?case by auto
qed

lemma collect_labels_total:
  assumes "inv_map m" "\<forall>p\<in>set pa. predicted_label p \<in> keys m" "\<forall>i\<in>set idxs. i < length pa"
  shows "\<exists>nl. collect_labels m pa idxs acc = Inr nl"
  using assms(3)
proof (induction idxs arbitrary: acc)
  case Nil
  then show ?case by simp
next
  case (Cons idx idxs)
  then have i: "idx < length pa" by simp
  with assms(2) have "predicted_label (pa ! idx) \<in> keys m" by simp
  from resolve_total [OF assms(1) this] obtain r where
    "resolve_label m (predicted_label (pa ! idx)) = Some (Inr r)" by blast
  with i Cons show ?case by simp
qed

lemma relabel_total:
  assumes "\<forall>p\<in>set ps. predicted_label p \<in> keys m"
  shows "\<exists>ps'. relabel m ps = Inr ps' \<and> length ps' = length ps"
  using assms
proof (induction ps)
  case Nil
  then show ?case by simp
next
  case (Cons p ps)
  then obtain ps' where "relabel m ps = Inr ps'" "length ps' = length ps" by auto
  moreover from Cons.prems obtain v where "map_of m (predicted_label p) = Some v"
    by (auto simp: keys_map_of)
  ultimately show ?case by simp
qed

section \<open>The clustering returns on every cloud with a row to cluster\<close>

lemma reachable_step: "reachable s \<Longrightarrow> step s s' \<Longrightarrow> reachable s'"
  unfolding reachable_def by (rule rtranclp.rtrancl_into_rtrancl)

lemma same_lengths_nonempty:
  assumes "map length a = map length b" "b \<noteq> []" "[] \<notin> set b"
  shows "a \<noteq> []" "[] \<notin> set a" "length (concat a) = length (concat b)"
proof -
  from assms(1) have "length a = length b" by (rule map_eq_imp_length_eq)
  with assms(2) show "a \<noteq> []" by auto
  show "[] \<notin> set a"
  proof
    assume "[] \<in> set a"
    then have "0 \<in> set (map length a)" by force
    with assms(1) have "0 \<in> set (map length b)" by simp
    with assms(3) show False by auto
  qed
  from assms(1) show "length (concat a) = length (concat b)"
    by (simp add: length_concat)
qed

lemma set_run_label_props:
  "length (set_run_label run l) = length run"
  "\<forall>p\<in>set (set_run_label run l). predicted_label p = l"
  by (auto simp: set_run_label_def)

lemma label_first_ok:
  assumes "label_first runs c m = (runs', c', m')"
  shows "step\<^sup>*\<^sup>* (Init c m) (Init c' m') \<and> map length runs' = map length runs
       \<and> keys m \<subseteq> keys m'
       \<and> (\<forall>p\<in>set (concat runs'). predicted_label p \<in> keys m')
       \<and> (runs \<noteq> [] \<longrightarrow> m' \<noteq> [])"
  using assms
proof (induction runs arbitrary: c m runs' c' m')
  case Nil
  then show ?case by simp
next
  case (Cons r rs)
  let ?c = "first_label c"
  let ?m = "AList.update ?c ?c m"
  obtain rs' c1 m1 where rec: "label_first rs ?c ?m = (rs', c1, m1)"
    by (cases "label_first rs ?c ?m") auto
  with Cons.prems have res: "runs' = set_run_label r ?c # rs'" "c' = c1" "m' = m1"
    by (simp_all add: Let_def)
  from Cons.IH [OF rec] have ih: "step\<^sup>*\<^sup>* (Init ?c ?m) (Init c1 m1)"
    "map length rs' = map length rs" "keys ?m \<subseteq> keys m1"
    "\<forall>p\<in>set (concat rs'). predicted_label p \<in> keys m1" by auto
  have "step (Init c m) (Init ?c ?m)" by (rule step.first_run)
  from this ih(1) have a: "step\<^sup>*\<^sup>* (Init c m) (Init c1 m1)"
    by (rule converse_rtranclp_into_rtranclp)
  from ih(3) have k: "?c \<in> keys m1" "keys m \<subseteq> keys m1"
    by (auto simp: keys_update)
  then have "m1 \<noteq> []" by (auto simp: keys_def)
  with a ih(2,4) k show ?case
    by (auto simp: res set_run_label_props)
qed

lemma label_runs_ok:
  assumes "reachable (Updating c m)" "pa \<noteq> []" "\<forall>p\<in>set pa. predicted_label p \<in> keys m"
  shows "\<exists>runs' m' c'. label_runs pa mthr runs m c = Inr (runs', m')
           \<and> reachable (Updating c' m') \<and> map length runs' = map length runs
           \<and> keys m \<subseteq> keys m'
           \<and> (\<forall>p\<in>set (concat runs'). predicted_label p \<in> keys m')"
  using assms(1,3)
proof (induction runs arbitrary: m c)
  case Nil
  then show ?case by auto
next
  case (Cons run runs)
  from reachable_inv [OF Cons.prems(1)] have im: "inv_map m" by simp
  have "\<forall>i\<in>set (close_indices pa mthr run). i < length pa"
    using close_indices_bound [OF assms(2)] by blast
  from collect_labels_total [OF im Cons.prems(2) this, of "[]"] obtain nl where
    nl: "collect_labels m pa (close_indices pa mthr run) [] = Inr nl" by blast
  from collect_labels_roots [OF nl]
  have roots: "set nl \<subseteq> {r. \<exists>l. resolve_label m l = Some (Inr r)}" by simp
  show ?case
  proof (cases "nl = []")
    case True
    let ?l = "skip_used m c"
    let ?m1 = "AList.update ?l ?l m"
    have an: "assign_new_label run m c = (set_run_label run ?l, ?m1, ?l + 1)"
      by (simp add: assign_new_label_def Let_def)
    then have "step (Updating c m) (Updating (?l + 1) ?m1)" by (rule step.new_label)
    with Cons.prems(1) have r1: "reachable (Updating (?l + 1) ?m1)" by (rule reachable_step)
    have k1: "keys m \<subseteq> keys ?m1" "?l \<in> keys ?m1" by (auto simp: keys_update)
    with Cons.prems(2) have "\<forall>p\<in>set pa. predicted_label p \<in> keys ?m1" by auto
    from Cons.IH [OF r1 this] obtain runs' m' c' where
      ih: "label_runs pa mthr runs ?m1 (?l + 1) = Inr (runs', m')"
        "reachable (Updating c' m')" "map length runs' = map length runs"
        "keys ?m1 \<subseteq> keys m'" "\<forall>p\<in>set (concat runs'). predicted_label p \<in> keys m'"
      by blast
    have "label_runs pa mthr (run # runs) m c = Inr (set_run_label run ?l # runs', m')"
      using nl True an ih(1) by simp
    moreover have "map length (set_run_label run ?l # runs') = map length (run # runs)"
      using ih(3) by (simp add: set_run_label_props)
    moreover have "keys m \<subseteq> keys m'" using k1 ih(4) by auto
    moreover have "\<forall>p\<in>set (concat (set_run_label run ?l # runs')). predicted_label p \<in> keys m'"
      using k1 ih(4,5) by (auto simp: set_run_label_props)
    ultimately show ?thesis using ih(2) by blast
  next
    case False
    let ?v = "Min (set nl)"
    let ?m1 = "foldl (\<lambda>m' lbl. AList.update lbl ?v m') m nl"
    have iu: "inherit_and_unify_labels run nl m = Inr (set_run_label run ?v, ?m1)"
      using False by (simp add: inherit_and_unify_labels_def Let_def)
    from step.unify [OF iu roots] have "step (Updating c m) (Updating c ?m1)" .
    with Cons.prems(1) have r1: "reachable (Updating c ?m1)" by (rule reachable_step)
    from False have "?v \<in> set nl" by simp
    then have k1: "keys m \<subseteq> keys ?m1" "?v \<in> keys ?m1" by (auto simp: keys_unify)
    with Cons.prems(2) have "\<forall>p\<in>set pa. predicted_label p \<in> keys ?m1" by auto
    from Cons.IH [OF r1 this] obtain runs' m' c' where
      ih: "label_runs pa mthr runs ?m1 c = Inr (runs', m')"
        "reachable (Updating c' m')" "map length runs' = map length runs"
        "keys ?m1 \<subseteq> keys m'" "\<forall>p\<in>set (concat runs'). predicted_label p \<in> keys m'"
      by blast
    have "label_runs pa mthr (run # runs) m c = Inr (set_run_label run ?v # runs', m')"
      using nl False iu ih(1) by simp
    moreover have "map length (set_run_label run ?v # runs') = map length (run # runs)"
      using ih(3) by (simp add: set_run_label_props)
    moreover have "keys m \<subseteq> keys m'" using k1 ih(4) by auto
    moreover have "\<forall>p\<in>set (concat (set_run_label run ?v # runs')). predicted_label p \<in> keys m'"
      using k1 ih(4,5) by (auto simp: set_run_label_props)
    ultimately show ?thesis using ih(2) by blast
  qed
qed

lemma update_labels_ok:
  assumes "reachable (Idle m)" "ra \<noteq> []" "[] \<notin> set ra"
    "\<forall>p\<in>set (concat ra). predicted_label p \<in> keys m"
  shows "\<exists>rc' m'. update_labels rc ra m mthr = Inr (rc', m')
           \<and> reachable (Idle m') \<and> map length rc' = map length rc
           \<and> keys m \<subseteq> keys m'
           \<and> (\<forall>p\<in>set (concat rc'). predicted_label p \<in> keys m')"
proof -
  from reachable_inv [OF assms(1)] have ne: "m \<noteq> []" by simp
  from assms(2,3) have pa: "concat ra \<noteq> []" by (cases ra) auto
  from ne have "step (Idle m) (Updating (Max (vals m) + 1) m)" by (rule step.enter)
  with assms(1) have "reachable (Updating (Max (vals m) + 1) m)" by (rule reachable_step)
  from label_runs_ok [OF this pa assms(4), of mthr rc] obtain rc' m' c' where
    r: "label_runs (concat ra) mthr rc m (Max (vals m) + 1) = Inr (rc', m')"
      "reachable (Updating c' m')" "map length rc' = map length rc"
      "keys m \<subseteq> keys m'" "\<forall>p\<in>set (concat rc'). predicted_label p \<in> keys m'"
    by blast
  from r(2) step.leave [of c' m'] have "reachable (Idle m')" by (rule reachable_step)
  moreover have "update_labels rc ra m mthr = Inr (rc', m')"
    using ne assms(2) pa r(1) by (simp add: update_labels_def)
  ultimately show ?thesis using r(3,4,5) by blast
qed

lemma propagate_ok:
  assumes "reachable (Idle m)" "ra \<noteq> []" "[] \<notin> set ra"
    "\<forall>p\<in>set (concat ra). predicted_label p \<in> keys m" "[] \<notin> set ss"
  shows "\<exists>ss' m'. propagate ss ra m d mthr = Inr (ss', m')
           \<and> reachable (Idle m') \<and> map length ss' = map length ss
           \<and> keys m \<subseteq> keys m'
           \<and> (\<forall>p\<in>set (concat ss'). predicted_label p \<in> keys m')"
  using assms
proof (induction ss arbitrary: ra m)
  case Nil
  then show ?case by auto
next
  case (Cons s ss)
  from Cons.prems(5) have s: "s \<noteq> []" "[] \<notin> set ss" by auto
  from find_runs_ok [OF s(1), of d] obtain rc where
    rc: "find_runs s d = Inr rc" "mset (concat rc) = mset s" "rc \<noteq> []" "[] \<notin> set rc"
    by blast
  from update_labels_ok [OF Cons.prems(1-4), of rc mthr] obtain rc' m1 where
    u: "update_labels rc ra m mthr = Inr (rc', m1)" "reachable (Idle m1)"
      "map length rc' = map length rc" "keys m \<subseteq> keys m1"
      "\<forall>p\<in>set (concat rc'). predicted_label p \<in> keys m1"
    by blast
  from same_lengths_nonempty [OF u(3) rc(3,4)]
  have n: "rc' \<noteq> []" "[] \<notin> set rc'" "length (concat rc') = length (concat rc)" by auto
  from Cons.IH [OF u(2) n(1,2) u(5) s(2)] obtain ss' m' where
    ih: "propagate ss rc' m1 d mthr = Inr (ss', m')" "reachable (Idle m')"
      "map length ss' = map length ss" "keys m1 \<subseteq> keys m'"
      "\<forall>p\<in>set (concat ss'). predicted_label p \<in> keys m'"
    by blast
  from rc(2) have "length (concat rc) = length s" by (metis size_mset)
  with n(3) have len: "length (concat rc') = length s" by simp
  have "propagate (s # ss) ra m d mthr = Inr (concat rc' # ss', m')"
    using rc(1) u(1) n(1) ih(1) by simp
  moreover have "map length (concat rc' # ss') = map length (s # ss)"
    using len ih(3) by simp
  moreover have "keys m \<subseteq> keys m'" using u(4) ih(4) by auto
  moreover have "\<forall>p\<in>set (concat (concat rc' # ss')). predicted_label p \<in> keys m'"
    using u(5) ih(4,5) by auto
  ultimately show ?case using ih(2) by blast
qed

lemma cluster_non_ground_ok:
  assumes "ngp \<noteq> []"
  shows "\<exists>cl m. cluster_non_ground ngp d mthr = Inr (cl, m)
           \<and> length cl = length ngp \<and> reachable (Idle m)"
proof -
  from group_by_scanline_ok [OF assms] obtain s0 ss where
    g: "group_by_scanline ngp = s0 # ss" "s0 \<noteq> []" "[] \<notin> set ss"
      "length s0 + sum_list (map length ss) = length ngp"
    by (cases "group_by_scanline ngp") auto
  from find_runs_ok [OF g(2), of d] obtain runs0 where
    r0: "find_runs s0 d = Inr runs0" "mset (concat runs0) = mset s0" "runs0 \<noteq> []"
      "[] \<notin> set runs0"
    by blast
  obtain ra c0 m0 where lf: "label_first runs0 0 [] = (ra, c0, m0)"
    by (cases "label_first runs0 0 []") auto
  from label_first_ok [OF lf] r0(3) have f: "step\<^sup>*\<^sup>* (Init 0 []) (Init c0 m0)"
    "map length ra = map length runs0"
    "\<forall>p\<in>set (concat ra). predicted_label p \<in> keys m0" "m0 \<noteq> []" by auto
  from f(1) have "reachable (Init c0 m0)" by (simp add: reachable_def)
  with step.first_done [OF f(4), of c0] have idle: "reachable (Idle m0)"
    by (rule reachable_step [rotated])
  from same_lengths_nonempty [OF f(2) r0(3,4)]
  have n: "ra \<noteq> []" "[] \<notin> set ra" "length (concat ra) = length (concat runs0)" by auto
  from propagate_ok [OF idle n(1,2) f(3) g(3), of d mthr] obtain ss' m' where
    p: "propagate ss ra m0 d mthr = Inr (ss', m')" "reachable (Idle m')"
      "map length ss' = map length ss" "keys m0 \<subseteq> keys m'"
      "\<forall>p\<in>set (concat ss'). predicted_label p \<in> keys m'"
    by blast
  have "\<forall>p\<in>set (concat (concat ra # ss')). predicted_label p \<in> keys m'"
    using f(3) p(4,5) by auto
  from relabel_total [OF this] obtain cl where
    cl: "relabel m' (concat (concat ra # ss')) = Inr cl"
      "length cl = length (concat (concat ra # ss'))" by blast
  from r0(2) have "length (concat runs0) = length s0" by (metis size_mset)
  with n(3) have "length (concat ra) = length s0" by simp
  moreover have "length (concat ss') = sum_list (map length ss)"
    using p(3) by (simp add: length_concat)
  ultimately have "length cl = length ngp"
    using cl(2) g(4) by simp
  moreover have "cluster_non_ground ngp d mthr = Inr (cl, m')"
    using g(1) r0(1) lf n(1) p(1) cl(1)
    by (simp add: cluster_non_ground_def extract_clusters_def)
  ultimately show ?thesis using p(2) by blast
qed





section \<open>Properties of the label equivalences\<close>

lemma step_keys_mono:
  assumes "step s s'"
  shows "keys (mapping_of s) \<subseteq> keys (mapping_of s')"
  using assms
proof (induction rule: step.induct)
  case (new_label run m c run' m' c')
  then show ?case by (auto simp: assign_new_label_def Let_def keys_update)
next
  case (unify run nl m run' m' c)
  then show ?case
    by (auto simp: inherit_and_unify_labels_def Let_def keys_unify split: if_splits)
qed (auto simp: keys_update)

lemma steps_keys_mono:
  assumes "step\<^sup>*\<^sup>* s s'"
  shows "keys (mapping_of s) \<subseteq> keys (mapping_of s')"
  using assms
proof (induction rule: rtranclp_induct)
  case base
  show ?case by simp
next
  case (step s1 s2)
  from step_keys_mono [OF step(2)] step(3) show ?case by blast
qed

lemma state_inv_map: "state_inv s \<Longrightarrow> inv_map (mapping_of s)"
  by (cases s) auto

lemma inv_map_no_nine:
  assumes "inv_map m"
  shows "9 \<notin> keys m" "9 \<notin> vals m"
proof -
  from assms obtain k where k: "keys m = {i. 1 \<le> i \<and> i \<le> k \<and> i \<noteq> 9}"
    by (auto simp: inv_map_def)
  then show nk: "9 \<notin> keys m" by simp
  show "9 \<notin> vals m"
  proof
    assume "9 \<in> vals m"
    with assms obtain a where "map_of m a = Some 9"
      by (auto simp: vals_map_of inv_map_def)
    with assms have "9 \<in> keys m" by (auto simp: inv_map_def)
    with nk show False by simp
  qed
qed

text \<open>
  C5. In every state the dictionary goes through during one call, 9 is neither a key nor
  a value of it, and every key it has is still a key in every state that follows.
\<close>

theorem nine_never_mapped_keys_kept:
  assumes "reachable s"
  shows "9 \<notin> keys (mapping_of s) \<and> 9 \<notin> vals (mapping_of s)
       \<and> (\<forall>s'. step\<^sup>*\<^sup>* s s' \<longrightarrow> keys (mapping_of s) \<subseteq> keys (mapping_of s'))"
proof -
  from assms have "inv_map (mapping_of s)"
    by (intro state_inv_map reachable_inv)
  from inv_map_no_nine [OF this] steps_keys_mono show ?thesis by blast
qed

lemma first_label_fresh:
  assumes "state_inv (Init c m)"
  shows "smallest_unused m (first_label c)"
proof -
  from assms have c: "0 \<le> c" "c \<noteq> 9" and ks: "keys m = {i. 1 \<le> i \<and> i \<le> c \<and> i \<noteq> 9}"
    by auto
  have l: "first_label c = (if c = 8 then 10 else c + 1)"
    by (simp add: first_label_def Let_def)
  show ?thesis
    unfolding smallest_unused_def l ks using c by auto
qed




lemma resolve_fresh_key:
  assumes "inv_map m" "l \<notin> keys m" "a \<in> keys m"
  shows "resolve_label (AList.update l v m) a = resolve_label m a"
  using assms(3)
proof (induction "nat a" arbitrary: a rule: less_induct)
  case less
  from assms(1) have old: "\<forall>a b. map_of m a = Some b \<longrightarrow> b \<in> keys m \<and> b \<le> a"
    and k: "\<exists>k. keys m = {i. 1 \<le> i \<and> i \<le> k \<and> i \<noteq> 9}"
    by (simp_all add: inv_map_def)
  from less.prems obtain b where b: "map_of m a = Some b"
    by (auto simp: keys_map_of)
  with old have bk: "b \<in> keys m" "b \<le> a" by auto
  from k bk(1) have "1 \<le> b" by auto
  from less.prems assms(2) have "a \<noteq> l" by auto
  with b have b': "map_of (AList.update l v m) a = Some b" by (simp add: update_conv')
  show ?case
  proof (cases "a = b")
    case True
    with b have "resolve_label m a = Some (Inr a)"
      by (subst resolve_label.simps) simp
    moreover from True b' have "resolve_label (AList.update l v m) a = Some (Inr a)"
      by (subst resolve_label.simps) simp
    ultimately show ?thesis by simp
  next
    case False
    with bk \<open>1 \<le> b\<close> have "nat b < nat a" by linarith
    from less.hyps [OF this bk(1)]
    have ih: "resolve_label (AList.update l v m) b = resolve_label m b" .
    from b False have "resolve_label m a = resolve_label m b"
      by (subst resolve_label.simps) simp
    moreover from b' False
    have "resolve_label (AList.update l v m) a = resolve_label (AList.update l v m) b"
      by (subst resolve_label.simps) simp
    ultimately show ?thesis using ih by simp
  qed
qed

lemma resolve_unified:
  assumes "inv_map m" "nl \<noteq> []" "\<forall>r\<in>set nl. map_of m r = Some r" "a \<in> keys m"
    "resolve_label m a = Some (Inr r)"
  shows "resolve_label (foldl (\<lambda>m' lbl. AList.update lbl (Min (set nl)) m') m nl) a
           = Some (Inr (if r \<in> set nl then Min (set nl) else r))"
  using assms(4,5)
proof (induction "nat a" arbitrary: a rule: less_induct)
  case less
  let ?v = "Min (set nl)"
  let ?m' = "foldl (\<lambda>m' lbl. AList.update lbl ?v m') m nl"
  from assms(1) have old: "\<forall>a b. map_of m a = Some b \<longrightarrow> b \<in> keys m \<and> b \<le> a"
    and k: "\<exists>k. keys m = {i. 1 \<le> i \<and> i \<le> k \<and> i \<noteq> 9}"
    by (simp_all add: inv_map_def)
  from assms(2) have vin: "?v \<in> set nl" by simp
  then have vv: "map_of ?m' ?v = Some ?v" by (simp add: map_of_unify)
  then have rv: "resolve_label ?m' ?v = Some (Inr ?v)"
    by (subst resolve_label.simps) simp
  from less.prems(1) obtain b where b: "map_of m a = Some b"
    by (auto simp: keys_map_of)
  with old have bk: "b \<in> keys m" "b \<le> a" by auto
  from k bk(1) have "1 \<le> b" by auto
  show ?case
  proof (cases "a \<in> set nl")
    case True
    with assms(3) have "map_of m a = Some a" by simp
    then have "resolve_label m a = Some (Inr a)"
      by (subst resolve_label.simps) simp
    with less.prems(2) have ra: "r = a" by simp
    from True have ma: "map_of ?m' a = Some ?v" by (simp add: map_of_unify)
    have "resolve_label ?m' a = Some (Inr ?v)"
    proof (cases "a = ?v")
      case True
      with rv show ?thesis by simp
    next
      case False
      with ma have "resolve_label ?m' a = resolve_label ?m' ?v"
        by (subst resolve_label.simps) simp
      with rv show ?thesis by simp
    qed
    with True ra show ?thesis by simp
  next
    case False
    with b have b': "map_of ?m' a = Some b" by (simp add: map_of_unify)
    show ?thesis
    proof (cases "a = b")
      case True
      with b have "resolve_label m a = Some (Inr a)"
        by (subst resolve_label.simps) simp
      with less.prems(2) have ra: "r = a" by simp
      from True b' have "resolve_label ?m' a = Some (Inr a)"
        by (subst resolve_label.simps) simp
      with ra False show ?thesis by simp
    next
      case ab: False
      with bk \<open>1 \<le> b\<close> have lt: "nat b < nat a" by linarith
      from b ab have "resolve_label m a = resolve_label m b"
        by (subst resolve_label.simps) simp
      with less.prems(2) have "resolve_label m b = Some (Inr r)" by simp
      from less.hyps [OF lt bk(1) this]
      have ih: "resolve_label ?m' b = Some (Inr (if r \<in> set nl then ?v else r))" .
      from b' ab have "resolve_label ?m' a = resolve_label ?m' b"
        by (subst resolve_label.simps) simp
      with ih show ?thesis by simp
    qed
  qed
qed

lemma step_keeps_classes:
  assumes "step s s'" "state_inv s" "a \<in> keys (mapping_of s)" "b \<in> keys (mapping_of s)"
    "resolve_label (mapping_of s) a = resolve_label (mapping_of s) b"
  shows "resolve_label (mapping_of s') a = resolve_label (mapping_of s') b"
  using assms
proof (induction rule: step.induct)
  case (first_run c m)
  from first_run(1) have im: "inv_map m" by simp
  from first_label_fresh [OF first_run(1)] have "first_label c \<notin> keys m"
    by (simp add: smallest_unused_def)
  from resolve_fresh_key [OF im this] first_run(2-4) show ?case by simp
next
  case (new_label run m c run' m' c')
  from new_label(2) have im: "inv_map m" by simp
  from new_label(1) have m': "m' = AList.update (skip_used m c) (skip_used m c) m"
    by (auto simp: assign_new_label_def Let_def)
  from skip_used_spec [of c m] have "skip_used m c \<notin> keys m" by simp
  from resolve_fresh_key [OF im this] new_label(3-5) show ?case by (simp add: m')
next
  case (unify run nl m run' m' c)
  from unify(3) have im: "inv_map m" by simp
  from unify(1) have nl: "nl \<noteq> []"
    and m': "m' = foldl (\<lambda>m' lbl. AList.update lbl (Min (set nl)) m') m nl"
    by (auto simp: inherit_and_unify_labels_def Let_def split: if_splits)
  from unify(2) have roots: "\<forall>r\<in>set nl. map_of m r = Some r"
    by (auto dest: resolve_label_root)
  from unify(4) have ka: "a \<in> keys m" by simp
  from unify(5) have kb: "b \<in> keys m" by simp
  from resolve_total [OF im ka] obtain r where r: "resolve_label m a = Some (Inr r)" by blast
  with unify(6) have r': "resolve_label m b = Some (Inr r)" by simp
  from resolve_unified [OF im nl roots ka r] resolve_unified [OF im nl roots kb r']
  show ?case by (simp add: m')
qed simp_all

lemma steps_keep_classes:
  assumes "step\<^sup>*\<^sup>* s s'" "state_inv s" "a \<in> keys (mapping_of s)" "b \<in> keys (mapping_of s)"
    "resolve_label (mapping_of s) a = resolve_label (mapping_of s) b"
  shows "resolve_label (mapping_of s') a = resolve_label (mapping_of s') b"
  using assms
proof (induction rule: rtranclp_induct)
  case base
  then show ?case by simp
next
  case (step s1 s2)
  have inv1: "state_inv s1"
    using step(1) step(4)
  proof (induction rule: rtranclp_induct)
    case base
    then show ?case .
  next
    case (step t1 t2)
    from inv_step [OF step(2)] step(3,4) show ?case by simp
  qed
  from steps_keys_mono [OF step(1)] step(5,6)
  have k: "a \<in> keys (mapping_of s1)" "b \<in> keys (mapping_of s1)" by auto
  from step(3) [OF step(4-7)]
  have "resolve_label (mapping_of s1) a = resolve_label (mapping_of s1) b" .
  from step_keeps_classes [OF step(2) inv1 k this] show ?case .
qed


lemma cluster_reachable:
  assumes "cluster_non_ground ngp d mthr = Inr (cl, m)"
  shows "reachable (Idle m)"
proof -
  have "ngp \<noteq> []"
  proof
    assume "ngp = []"
    then have "cluster_non_ground ngp d mthr = Inl IndexError"
      by (simp add: cluster_non_ground_def group_by_scanline_def)
    with assms show False by simp
  qed
  from cluster_non_ground_ok [OF this, of d mthr] assms show ?thesis by auto
qed

lemma reachable_ex_bridge: "reachable (Idle [(1, 1), (2, 1), (3, 2)])"
  using cluster_ex_bridge by (rule cluster_reachable)

text \<open>
  C4. In every state the dictionary goes through during one call, \<open>resolve_label\<close>
  returns on every key, at a label that is stored as its own value; resolving that label
  gives it again, and it is not above any key that resolves to it. Two keys that resolve
  to the same label do so in every later state, and after
  \<open>inherit_and_unify_labels\<close> all the labels it was given resolve to the least of
  them; so labels joined with a common label are joined with each other.
\<close>

theorem resolve_reaches_least_root:
  assumes "reachable s"
  shows "(\<forall>k\<in>keys (mapping_of s). \<exists>r.
            resolve_label (mapping_of s) k = Some (Inr r)
          \<and> map_of (mapping_of s) r = Some r
          \<and> resolve_label (mapping_of s) r = Some (Inr r)
          \<and> (\<forall>k'\<in>keys (mapping_of s).
                resolve_label (mapping_of s) k' = Some (Inr r) \<longrightarrow> r \<le> k'))
       \<and> (\<forall>s' a b. step\<^sup>*\<^sup>* s s' \<and> a \<in> keys (mapping_of s) \<and> b \<in> keys (mapping_of s)
              \<and> resolve_label (mapping_of s) a = resolve_label (mapping_of s) b
            \<longrightarrow> resolve_label (mapping_of s') a = resolve_label (mapping_of s') b)
       \<and> (\<forall>c m run nl run' m'.
              s = Updating c m
              \<and> set nl \<subseteq> {r. \<exists>l. resolve_label m l = Some (Inr r)}
              \<and> inherit_and_unify_labels run nl m = Inr (run', m')
            \<longrightarrow> (\<forall>a\<in>set nl. resolve_label m' a = Some (Inr (Min (set nl)))))"
proof (intro conjI)
  from assms have si: "state_inv s" by (rule reachable_inv)
  then have im: "inv_map (mapping_of s)" by (rule state_inv_map)
  show "\<forall>k\<in>keys (mapping_of s). \<exists>r.
            resolve_label (mapping_of s) k = Some (Inr r)
          \<and> map_of (mapping_of s) r = Some r
          \<and> resolve_label (mapping_of s) r = Some (Inr r)
          \<and> (\<forall>k'\<in>keys (mapping_of s).
                resolve_label (mapping_of s) k' = Some (Inr r) \<longrightarrow> r \<le> k')"
  proof
    fix k assume "k \<in> keys (mapping_of s)"
    from resolve_total [OF im this] obtain r where
      r: "resolve_label (mapping_of s) k = Some (Inr r)" "map_of (mapping_of s) r = Some r"
      by blast
    from r(2) have rr: "resolve_label (mapping_of s) r = Some (Inr r)"
      by (subst resolve_label.simps) simp
    have "\<forall>k'\<in>keys (mapping_of s).
            resolve_label (mapping_of s) k' = Some (Inr r) \<longrightarrow> r \<le> k'"
    proof (intro ballI impI)
      fix k' assume k': "k' \<in> keys (mapping_of s)"
        and e: "resolve_label (mapping_of s) k' = Some (Inr r)"
      from resolve_total [OF im k'] obtain r' where
        "resolve_label (mapping_of s) k' = Some (Inr r')" "r' \<le> k'" by blast
      with e show "r \<le> k'" by simp
    qed
    with r rr show "\<exists>r. resolve_label (mapping_of s) k = Some (Inr r)
          \<and> map_of (mapping_of s) r = Some r
          \<and> resolve_label (mapping_of s) r = Some (Inr r)
          \<and> (\<forall>k'\<in>keys (mapping_of s).
                resolve_label (mapping_of s) k' = Some (Inr r) \<longrightarrow> r \<le> k')"
      by blast
  qed
  show "\<forall>s' a b. step\<^sup>*\<^sup>* s s' \<and> a \<in> keys (mapping_of s) \<and> b \<in> keys (mapping_of s)
              \<and> resolve_label (mapping_of s) a = resolve_label (mapping_of s) b
            \<longrightarrow> resolve_label (mapping_of s') a = resolve_label (mapping_of s') b"
  proof (intro allI impI)
    fix s' a b
    assume h: "step\<^sup>*\<^sup>* s s' \<and> a \<in> keys (mapping_of s) \<and> b \<in> keys (mapping_of s)
              \<and> resolve_label (mapping_of s) a = resolve_label (mapping_of s) b"
    then have h1: "step\<^sup>*\<^sup>* s s'" and h2: "a \<in> keys (mapping_of s)"
      and h3: "b \<in> keys (mapping_of s)"
      and h4: "resolve_label (mapping_of s) a = resolve_label (mapping_of s) b"
      by simp_all
    from steps_keep_classes [OF h1 si h2 h3 h4]
    show "resolve_label (mapping_of s') a = resolve_label (mapping_of s') b" .
  qed
  show "\<forall>c m run nl run' m'.
              s = Updating c m
              \<and> set nl \<subseteq> {r. \<exists>l. resolve_label m l = Some (Inr r)}
              \<and> inherit_and_unify_labels run nl m = Inr (run', m')
            \<longrightarrow> (\<forall>a\<in>set nl. resolve_label m' a = Some (Inr (Min (set nl))))"
  proof (intro allI impI ballI)
    fix c m run nl run' m' a
    assume h: "s = Updating c m
              \<and> set nl \<subseteq> {r. \<exists>l. resolve_label m l = Some (Inr r)}
              \<and> inherit_and_unify_labels run nl m = Inr (run', m')"
      and a: "a \<in> set nl"
    from h im have imm: "inv_map m" by simp
    from h have nl: "nl \<noteq> []"
      and m': "m' = foldl (\<lambda>m' lbl. AList.update lbl (Min (set nl)) m') m nl"
      by (auto simp: inherit_and_unify_labels_def Let_def split: if_splits)
    from h have roots: "\<forall>r\<in>set nl. map_of m r = Some r"
      by (auto dest: resolve_label_root)
    with a have ma: "map_of m a = Some a" by simp
    then have ka: "a \<in> keys m" by (auto simp: keys_map_of)
    from ma have ra: "resolve_label m a = Some (Inr a)"
      by (subst resolve_label.simps) simp
    from resolve_unified [OF imm nl roots ka ra] a
    show "resolve_label m' a = Some (Inr (Min (set nl)))" by (simp add: m')
  qed
qed

theorem resolve_reaches_least_root_witness:
  "reachable (Idle [(1, 1), (2, 1), (3, 2)])
   \<and> resolve_label [(1, 1), (2, 1), (3, 2)] 3 = Some (Inr 1)
   \<and> resolve_label [(1, 1), (2, 1), (3, 2)] 2 = Some (Inr 1)
   \<and> resolve_label [(1, 1), (2, 1), (3, 2)] 1 = Some (Inr 1)
   \<and> (\<exists>r. resolve_label (mapping_of (Idle [(1, 1), (2, 1), (3, 2)])) 3 = Some (Inr r)
          \<and> resolve_label (mapping_of (Idle [(1, 1), (2, 1), (3, 2)])) r = Some (Inr r))"
proof -
  have k: "3 \<in> keys (mapping_of (Idle [(1, 1), (2, 1), (3, 2)]))"
    by (simp add: keys_def)
  from resolve_reaches_least_root [OF reachable_ex_bridge] k
  have "\<exists>r. resolve_label (mapping_of (Idle [(1, 1), (2, 1), (3, 2)])) 3 = Some (Inr r)
          \<and> resolve_label (mapping_of (Idle [(1, 1), (2, 1), (3, 2)])) r = Some (Inr r)"
    by blast
  moreover have "resolve_label [(1, 1), (2, 1), (3, 2)] 3 = Some (Inr 1)"
    "resolve_label [(1, 1), (2, 1), (3, 2)] 2 = Some (Inr 1)"
    "resolve_label [(1, 1), (2, 1), (3, 2)] 1 = Some (Inr 1)"
    by (simp_all add: resolve_label.simps)
  ultimately show ?thesis using reachable_ex_bridge by blast
qed

lemma steps_ex_bridge_new:
  "step\<^sup>*\<^sup>* (Idle [(1, 1), (2, 1), (3, 2)]) (Updating 5 [(1, 1), (2, 1), (3, 2), (4, 4)])"
proof -
  have "step (Idle [(1, 1), (2, 1), (3, 2)])
          (Updating (Max (vals [(1, 1), (2, 1), (3, 2)]) + 1) [(1, 1), (2, 1), (3, 2)])"
    by (rule step.enter) simp
  then have a: "step (Idle [(1, 1), (2, 1), (3, 2)]) (Updating 3 [(1, 1), (2, 1), (3, 2)])"
    by (simp add: vals_def)
  have "assign_new_label [] [(1, 1), (2, 1), (3, 2)] 3 = ([], [(1, 1), (2, 1), (3, 2), (4, 4)], 5)"
    by (simp add: assign_new_label_def skip_used.simps keys_def set_run_label_def)
  then have "step (Updating 3 [(1, 1), (2, 1), (3, 2)]) (Updating 5 [(1, 1), (2, 1), (3, 2), (4, 4)])"
    by (rule step.new_label)
  then have "step\<^sup>*\<^sup>* (Updating 3 [(1, 1), (2, 1), (3, 2)])
                (Updating 5 [(1, 1), (2, 1), (3, 2), (4, 4)])"
    by (rule r_into_rtranclp)
  with a show ?thesis by (rule converse_rtranclp_into_rtranclp)
qed

theorem nine_never_mapped_keys_kept_witness:
  "reachable (Idle [(1, 1), (2, 1), (3, 2)])
   \<and> 9 \<notin> keys [(1, 1), (2, 1), (3, 2)] \<and> 9 \<notin> vals [(1, 1), (2, 1), (3, 2)]
   \<and> step\<^sup>*\<^sup>* (Idle [(1, 1), (2, 1), (3, 2)]) (Updating 5 [(1, 1), (2, 1), (3, 2), (4, 4)])
   \<and> keys [(1, 1), (2, 1), (3, 2)] \<subseteq> keys [(1, 1), (2, 1), (3, 2), (4, 4)]"
proof -
  from nine_never_mapped_keys_kept [OF reachable_ex_bridge]
  have a: "9 \<notin> keys [(1, 1), (2, 1), (3, 2)]" "9 \<notin> vals [(1, 1), (2, 1), (3, 2)]"
    and b: "\<forall>s'. step\<^sup>*\<^sup>* (Idle [(1, 1), (2, 1), (3, 2)]) s'
              \<longrightarrow> keys [(1, 1), (2, 1), (3, 2)] \<subseteq> keys (mapping_of s')"
    by simp_all
  from b have "step\<^sup>*\<^sup>* (Idle [(1, 1), (2, 1), (3, 2)])
                 (Updating 5 [(1, 1), (2, 1), (3, 2), (4, 4)])
          \<longrightarrow> keys [(1, 1), (2, 1), (3, 2)]
                \<subseteq> keys (mapping_of (Updating 5 [(1, 1), (2, 1), (3, 2), (4, 4)]))" ..
  from this steps_ex_bridge_new
  have "keys [(1, 1), (2, 1), (3, 2)]
          \<subseteq> keys (mapping_of (Updating 5 [(1, 1), (2, 1), (3, 2), (4, 4)]))" ..
  then have "keys [(1, 1), (2, 1), (3, 2)] \<subseteq> keys [(1, 1), (2, 1), (3, 2), (4, 4)]"
    by simp
  with a reachable_ex_bridge steps_ex_bridge_new show ?thesis by (intro conjI)
qed






text \<open>
  C1. On the cloud \<open>ex_bridge\<close> the finalization does not write the root: the third
  row carries the provisional label 3, whose root in the final dictionary is 1, and is
  written back with label 2, the dictionary's entry for 3, although the entry for 2 is 1.
\<close>

theorem finalization_single_lookup:
  "cluster_non_ground ex_bridge 3 1 =
     Inr ([row 0 0 0 0 1 0, row 4 0 0 0 1 0, row 8 0 0 0 2 0,
           row 0 0 0 0 1 1, row 4 0 0 0 1 1, row 6 0 0 0 1 1, row 8 0 0 0 1 1,
           row 0 0 0 0 1 2, row 2 0 0 0 1 2, row 4 0 0 0 1 2],
          [(1, 1), (2, 1), (3, 2)])
   \<and> snd (scan_line_run_clustering ex_bridge 3 1) ! 2 = row 8 0 0 0 2 0
   \<and> map_of [(1, 1), (2, 1), (3, 2)] 2 = Some 1
   \<and> resolve_label [(1, 1), (2, 1), (3, 2)] 3 = Some (Inr 1)
   \<and> resolve_label [(1, 1), (2, 1), (3, 2)] 2 = Some (Inr 1)"
  by (simp add: cluster_ex_bridge slr_ex_bridge resolve_label.simps)

text \<open>
  The write-back pairs the rows of the input, in their order, with the rows of the
  result, in scanline order. On \<open>ex_unsorted\<close> the two rows at the same place end up
  in different clusters and the far row shares a label with one of them.
\<close>

lemma slr_ex_unsorted:
  "scan_line_run_clustering ex_unsorted 3 1
     = (None, [row 0 0 0 0 1 1, row 0 0 0 0 2 0, row 100 0 0 0 1 0])"
  by (simp add: scan_line_run_clustering_def cluster_non_ground_def group_by_scanline_def
      find_runs_def forward_pass_def circular_merge_def forward_step_def rows_at_def
      labels_on_axis first_label_def extract_clusters_def write_labels_def ex_unsorted_def)

end
